theory Spec2Isabelle
  imports Complex_Main "HOL-Library.Log_Nat"
begin

section \<open>Python numbers\<close>

text \<open>
  The cropping scripts compute with Python \<open>int\<close> (unbounded) and \<open>float\<close> (IEEE binary64).
  An \<open>int\<close> is an \<^typ>\<open>int\<close>; a \<open>float\<close> is the real number it denotes, and every float
  operation is the exact operation followed by \<open>fl\<close>, rounding to the nearest binary64 value
  with ties to even. \<open>expo x\<close> is the binary exponent of \<open>x\<close>, so a binary64 value near \<open>x\<close>
  is a multiple of \<open>2 powi (expo x - 52)\<close>. Overflow and subnormal numbers are left out:
  every quantity below is a pixel count, a coordinate or a ratio of two of them.
  A decimal literal such as \<open>0.15\<close> is \<open>fl (15/100)\<close>, and \<open>int(x)\<close> truncates towards zero.
\<close>

definition expo :: "real \<Rightarrow> int" where
  "expo x = (let a = \<bar>x\<bar> in if 1 \<le> a then bitlen \<lfloor>a\<rfloor> - 1 else - bitlen (\<lceil>1 / a\<rceil> - 1))"

definition round_even :: "real \<Rightarrow> int" where
  "round_even q = (let f = \<lfloor>q\<rfloor>; r = q - of_int f
     in if r < 1/2 then f else if 1/2 < r then f + 1 else if even f then f else f + 1)"

definition fl :: "real \<Rightarrow> real" where
  "fl x = (if x = 0 then 0 else let u = 2 powi (expo x - 52) in of_int (round_even (x / u)) * u)"

definition py_int :: "real \<Rightarrow> int" where
  "py_int x = (if 0 \<le> x then \<lfloor>x\<rfloor> else \<lceil>x\<rceil>)"

text \<open>
  An index taken from \<open>np.where\<close> is a numpy \<open>int64\<close>. The product of an int64 and a
  Python int is an int64 again and wraps around at \<open>2^63\<close> (\<open>wrap64\<close>), as do their sum
  and difference; its quotient by 100 is the binary64 quotient of the converted int64.
  The coordinates of a recentred box come out of \<open>int(...)\<close> and are Python ints: their
  product is exact and the quotient of two Python ints is rounded once. A Python int
  beyond the int64 range is refused by numpy; the margins and paddings considered below
  lie within the range.
\<close>

datatype int_kind = NumpyInt64 | PythonInt

definition wrap64 :: "int \<Rightarrow> int" where
  "wrap64 k = (k + 2 ^ 63) mod 2 ^ 64 - 2 ^ 63"

text \<open>
  \<open>near_frac c p q\<close>: the binary64 value \<open>c\<close> lies so close to the fraction \<open>p / q\<close>
  that products of \<open>c\<close> with a pixel count round as products with \<open>p / q\<close> do.
\<close>

definition near_frac :: "real \<Rightarrow> nat \<Rightarrow> nat \<Rightarrow> bool" where
  "near_frac c p q \<longleftrightarrow>
     0 < p \<and> p \<le> 200 \<and> 0 < q \<and> q \<le> 100 \<and>
     (real p / real q) * (1 - 1 / 2 ^ 54) < c \<and> c \<le> (real p / real q) * (1 + 1 / 2 ^ 52)"

section \<open>Images and arrays\<close>

text \<open>
  A PIL image in mode \<open>L\<close> has a size and one level per pixel; \<open>np.array\<close> of it is the list
  of its rows. \<open>Image.resize\<close> and the filter chain that produces the edge image
  (\<open>convert('L')\<close>, \<open>ImageEnhance.Contrast\<close>, \<open>FIND_EDGES\<close>, \<open>MaxFilter\<close>) belong to
  PIL; they are parameters \<open>resize\<close> and \<open>find_edges\<close> of the functions below, constrained
  only to return an image of the size PIL promises. \<open>Image.resize\<close> raises \<open>ValueError\<close>
  for a size with a zero side, so nothing is promised of it there.
\<close>

record image =
  width :: nat
  height :: nat
  pixels :: "nat list list"

type_synonym box = "int \<times> int \<times> int \<times> int"

datatype error = EmptyArrayError

definition wf_image :: "image \<Rightarrow> bool" where
  "wf_image im \<longleftrightarrow>
     length (pixels im) = height im \<and> list_all (\<lambda>row. length row = width im) (pixels im)"

definition resize_ok :: "(image \<Rightarrow> nat \<times> nat \<Rightarrow> image) \<Rightarrow> bool" where
  "resize_ok resize \<longleftrightarrow>
     (\<forall>im w h. wf_image im \<and> 0 < w \<and> 0 < h \<longrightarrow>
        wf_image (resize im (w, h)) \<and> width (resize im (w, h)) = w \<and> height (resize im (w, h)) = h)"

definition filter_ok :: "(image \<Rightarrow> image) \<Rightarrow> bool" where
  "filter_ok find_edges \<longleftrightarrow>
     (\<forall>im. wf_image im \<longrightarrow>
        wf_image (find_edges im) \<and> width (find_edges im) = width im \<and>
        height (find_edges im) = height im)"

text \<open>
  \<open>np.mean\<close> and \<open>np.std\<close> of an array of levels. numpy evaluates them in binary64; they
  are modelled by their exact values. The statistic is only compared with pixel levels,
  and on a uniform array the binary64 evaluation is exact (the sum is an integer, every
  deviation is zero).
\<close>

definition np_mean :: "nat list list \<Rightarrow> real" where
  "np_mean arr = real (sum_list (concat arr)) / real (length (concat arr))"

definition np_std :: "nat list list \<Rightarrow> real" where
  "np_std arr =
     sqrt (sum_list (map (\<lambda>p. (real p - np_mean arr)\<^sup>2) (concat arr)) / real (length (concat arr)))"

text \<open>
  \<open>np.percentile(a, q)\<close> with the default linear method: the virtual index
  \<open>(n - 1) * (q / 100)\<close>, the two neighbours in sorted order, and numpy's interpolation
  (from the upper neighbour when the fraction is at least one half). On an array with no
  element numpy raises (index -1 is out of bounds for axis 0 with size 0).
\<close>

definition np_percentile :: "nat list \<Rightarrow> nat \<Rightarrow> error + real" where
  "np_percentile a q =
     (if a = [] then Inl EmptyArrayError
      else let s = sort a; n = length s;
               virtual_index = fl (real (n - 1) * fl (real q / 100))
           in if real (n - 1) \<le> virtual_index then Inr (real (last s))
              else let previous_index = nat \<lfloor>virtual_index\<rfloor>;
                       previous = s ! previous_index;
                       next = s ! (previous_index + 1);
                       gamma = fl (virtual_index - real previous_index);
                       diff_b_a = real (next - previous)
                   in Inr (if 1 / 2 \<le> gamma
                           then fl (real next - fl (diff_b_a * fl (1 - gamma)))
                           else fl (real previous + fl (diff_b_a * gamma))))"

text \<open>\<open>np.sum(mask, axis=1)\<close>, \<open>np.sum(mask, axis=0)\<close>, \<open>np.any\<close> and \<open>np.where(...)[0]\<close>.\<close>

definition np_sum_axis1 :: "bool list list \<Rightarrow> nat list" where
  "np_sum_axis1 msk = map (\<lambda>row. length (filter id row)) msk"

definition np_sum_axis0 :: "nat \<Rightarrow> bool list list \<Rightarrow> nat list" where
  "np_sum_axis0 w msk = map (\<lambda>j. length (filter (\<lambda>row. row ! j) msk)) [0..<w]"

definition np_any_axis1 :: "bool list list \<Rightarrow> bool list" where
  "np_any_axis1 msk = map (\<lambda>row. list_ex id row) msk"

definition np_any_axis0 :: "nat \<Rightarrow> bool list list \<Rightarrow> bool list" where
  "np_any_axis0 w msk = map (\<lambda>j. list_ex (\<lambda>row. row ! j) msk) [0..<w]"

definition np_where :: "bool list \<Rightarrow> nat list" where
  "np_where bs = filter (\<lambda>i. bs ! i) [0..<length bs]"

section \<open>Shared steps of the four scripts\<close>

text \<open>
  Resize for faster processing (auto\_crop\_card.py 26--34, smart\_crop\_v2.py 26--34):
  the working image and the ratio between working and original coordinates.
\<close>

definition downscale :: "nat \<Rightarrow> (image \<Rightarrow> nat \<times> nat \<Rightarrow> image) \<Rightarrow> image \<Rightarrow> image \<times> real" where
  "downscale max_dim resize img =
     (if max_dim < max (width img) (height img)
      then let ratio = fl (real max_dim / real (max (width img) (height img)));
               work_size = (nat (py_int (fl (real (width img) * ratio))),
                            nat (py_int (fl (real (height img) * ratio))))
           in (resize img work_size, ratio)
      else (img, 1))"

text \<open>
  The size of the working image, and the images for which \<open>Image.resize\<close> does not raise:
  those whose working size has no zero side.
\<close>

definition work_size :: "nat \<Rightarrow> image \<Rightarrow> nat \<times> nat" where
  "work_size max_dim img =
     (if max_dim < max (width img) (height img)
      then let ratio = fl (real max_dim / real (max (width img) (height img)))
           in (nat (py_int (fl (real (width img) * ratio))),
               nat (py_int (fl (real (height img) * ratio))))
      else (width img, height img))"

definition resizable :: "nat \<Rightarrow> image \<Rightarrow> bool" where
  "resizable max_dim img \<longleftrightarrow> 0 < fst (work_size max_dim img) \<and> 0 < snd (work_size max_dim img)"

text \<open>The brightness mask: \<open>arr < mean - std * k\<close> (auto\_crop\_card.py 41--46, crop\_card.py 36--37).\<close>

definition dark_mask :: "real \<Rightarrow> nat list list \<Rightarrow> bool list list" where
  "dark_mask k arr =
     (let threshold = np_mean arr - np_std arr * k
      in map (map (\<lambda>p. real p < threshold)) arr)"

text \<open>
  Rows and columns with more mask pixels than a fraction of the working width and height
  (auto\_crop\_card.py 50--59 with 0.15, smart\_crop\_v2.py 58--71 with 0.08).
\<close>

definition dense_indices :: "real \<Rightarrow> image \<Rightarrow> bool list list \<Rightarrow> nat list \<times> nat list" where
  "dense_indices fraction work msk =
     (let row_count = np_sum_axis1 msk;
          col_count = np_sum_axis0 (width work) msk;
          min_pixels_row = fl (real (width work) * fl fraction);
          min_pixels_col = fl (real (height work) * fl fraction)
      in (np_where (map (\<lambda>c. min_pixels_row < real c) row_count),
          np_where (map (\<lambda>c. min_pixels_col < real c) col_count)))"

text \<open>
  Rows and columns with any mask pixel (crop\_card.py 40--45, smart\_crop\_card.py 52--56).
\<close>

definition any_indices :: "image \<Rightarrow> bool list list \<Rightarrow> nat list \<times> nat list" where
  "any_indices work msk =
     (np_where (np_any_axis1 msk), np_where (np_any_axis0 (width work) msk))"

text \<open>
  The test for an empty index array and the first and last index of each
  (\<open>rows[0]\<close>, \<open>rows[-1]\<close>, \<open>cols[0]\<close>, \<open>cols[-1]\<close>); \<open>None\<close> stands for the branch taken when
  one of the arrays is empty.
\<close>

definition first_last :: "nat list \<times> nat list \<Rightarrow> box option" where
  "first_last rc =
     (case rc of (rows, cols) \<Rightarrow>
        if rows = [] \<or> cols = [] then None
        else Some (int (hd cols), int (hd rows), int (last cols), int (last rows)))"

text \<open>
  \<open>int(detected * margin_percent / 100)\<close>, for a detected size that is a numpy int64 and
  for one that is a Python int.
\<close>

definition percent_of :: "int_kind \<Rightarrow> int \<Rightarrow> int \<Rightarrow> int" where
  "percent_of kind detected margin_percent =
     (case kind of
        NumpyInt64 \<Rightarrow>
          py_int (fl (fl (real_of_int (wrap64 (detected * margin_percent))) / 100))
      | PythonInt \<Rightarrow> py_int (fl (real_of_int (detected * margin_percent) / 100)))"

text \<open>
  Margin as a percentage of the detected size, clamped to the working image
  (auto\_crop\_card.py 77--87, smart\_crop\_v2.py 106--113). The box comes with the kind of
  its coordinates. The sums and differences with the margin cannot leave the int64 range.
\<close>

definition add_margin :: "image \<Rightarrow> int \<Rightarrow> int_kind \<times> box \<Rightarrow> box" where
  "add_margin work margin_percent kbx =
     (case kbx of (kind, left_work, top_work, right_work, bottom_work) \<Rightarrow>
        let margin_h = percent_of kind (bottom_work - top_work) margin_percent;
            margin_w = percent_of kind (right_work - left_work) margin_percent
        in (max 0 (left_work - margin_w), max 0 (top_work - margin_h),
            min (int (width work)) (right_work + margin_w),
            min (int (height work)) (bottom_work + margin_h)))"

text \<open>
  Scale back to original coordinates: \<open>int(x / ratio)\<close> on each coordinate, the integer
  being converted to binary64 before the division
  (auto\_crop\_card.py 90--93, smart\_crop\_v2.py 116--119, smart\_crop\_card.py 136--139).
\<close>

definition scale_back :: "real \<Rightarrow> box \<Rightarrow> box" where
  "scale_back ratio bx =
     (case bx of (l, t, r, b) \<Rightarrow>
        (py_int (fl (fl (real_of_int l) / ratio)), py_int (fl (fl (real_of_int t) / ratio)),
         py_int (fl (fl (real_of_int r) / ratio)), py_int (fl (fl (real_of_int b) / ratio))))"

text \<open>\<open>(bottom - top) / (right - left) if (right - left) > 0 else 0\<close>.\<close>

definition aspect :: "box \<Rightarrow> real" where
  "aspect bx =
     (case bx of (l, t, r, b) \<Rightarrow> if 0 < r - l then fl (real_of_int (b - t) / real_of_int (r - l)) else 0)"

text \<open>
  The box of the detected width and 1.4 times that height around the centre
  (auto\_crop\_card.py 101--111, smart\_crop\_v2.py 95--104). An integer that meets a float
  is converted to binary64 first; the quotient of an integer by 2 is rounded once.
\<close>

definition recenter :: "box \<Rightarrow> box" where
  "recenter bx =
     (case bx of (left, top', right, bottom) \<Rightarrow>
        let center_x = (left + right) div 2;
            center_y = (top' + bottom) div 2;
            card_width = right - left;
            card_height = py_int (fl (fl (real_of_int card_width) * fl (14/10)))
        in (py_int (fl (fl (real_of_int center_x) - fl (real_of_int card_width / 2))),
            py_int (fl (fl (real_of_int center_y) - fl (real_of_int card_height / 2))),
            py_int (fl (fl (real_of_int center_x) + fl (real_of_int card_width / 2))),
            py_int (fl (fl (real_of_int center_y) + fl (real_of_int card_height / 2)))))"


text \<open>\<open>max(0, left)\<close>, \<open>max(0, top)\<close>, \<open>min(img.width, right)\<close>, \<open>min(img.height, bottom)\<close>.\<close>

definition clamp_box :: "image \<Rightarrow> box \<Rightarrow> box" where
  "clamp_box img bx =
     (case bx of (l, t, r, b) \<Rightarrow>
        (max 0 l, max 0 t, min (int (width img)) r, min (int (height img)) b))"

text \<open>
  Centre crop with a margin fraction on each side: \<open>int(w * margin)\<close>, \<open>int(h * margin)\<close>,
  \<open>int(w * (1 - margin))\<close>, \<open>int(h * (1 - margin))\<close>
  (auto\_crop\_card.py 64--69, smart\_crop\_v2.py 131--136).
\<close>

definition center_crop :: "real \<Rightarrow> image \<Rightarrow> box" where
  "center_crop m img =
     (let margin = fl m
      in (py_int (fl (real (width img) * margin)), py_int (fl (real (height img) * margin)),
          py_int (fl (real (width img) * fl (1 - margin))),
          py_int (fl (real (height img) * fl (1 - margin)))))"

section \<open>auto\_crop\_card.py\<close>

text \<open>
  \<open>find_dark_rectangle\<close>, on the grey image \<open>img.convert('L')\<close>: brightness mask, rows and
  columns with more than 15\% dark pixels, margin, scaling back, and last the check of the
  aspect ratio against 1.1 and 1.8 in original coordinates.
\<close>

definition verify_aspect :: "image \<Rightarrow> box \<Rightarrow> box" where
  "verify_aspect img bx =
     (let aspect_ratio = aspect bx
      in if aspect_ratio < fl (11/10) \<or> fl (18/10) < aspect_ratio
         then clamp_box img (recenter bx) else bx)"

definition find_dark_rectangle ::
  "(image \<Rightarrow> nat \<times> nat \<Rightarrow> image) \<Rightarrow> image \<Rightarrow> int \<Rightarrow> box" where
  "find_dark_rectangle resize gray margin_percent =
     (case downscale 800 resize gray of (gray_work, ratio) \<Rightarrow>
        case first_last (dense_indices (15/100) gray_work (dark_mask (8/10) (pixels gray_work))) of
          None \<Rightarrow> center_crop (15/100) gray
        | Some detected \<Rightarrow>
            verify_aspect gray
              (scale_back ratio (add_margin gray_work margin_percent (NumpyInt64, detected))))"

section \<open>smart\_crop\_v2.py\<close>

definition fallback_center_crop :: "image \<Rightarrow> box" where
  "fallback_center_crop img = center_crop (18/100) img"

text \<open>
  The mask of strong edges: above the 85th percentile of the positive edge strengths
  (smart\_crop\_v2.py 48--52).
\<close>

definition strong_edges_v2 :: "nat list list \<Rightarrow> error + bool list list" where
  "strong_edges_v2 edge_array =
     (case np_percentile (filter (\<lambda>p. 0 < p) (concat edge_array)) 85 of
        Inl e \<Rightarrow> Inl e
      | Inr threshold \<Rightarrow> Inr (map (map (\<lambda>p. threshold < real p)) edge_array))"

text \<open>
  The aspect check of \<open>find_card_by_edges\<close>, in working coordinates and before the margin
  (smart\_crop\_v2.py 85--104). A recentred box has Python ints for coordinates, a box left
  as detected keeps its numpy indices.
\<close>

definition adjust_ratio :: "box \<Rightarrow> int_kind \<times> box" where
  "adjust_ratio bx =
     (let detected_ratio = aspect bx
      in if detected_ratio < fl (11/10) \<or> fl (18/10) < detected_ratio
         then (PythonInt, recenter bx) else (NumpyInt64, bx))"

definition find_card_by_edges ::
  "(image \<Rightarrow> nat \<times> nat \<Rightarrow> image) \<Rightarrow> (image \<Rightarrow> image) \<Rightarrow> image \<Rightarrow> int \<Rightarrow> error + box" where
  "find_card_by_edges resize find_edges img margin_percent =
     (case downscale 1200 resize img of (work_img, ratio) \<Rightarrow>
        case strong_edges_v2 (pixels (find_edges work_img)) of
          Inl e \<Rightarrow> Inl e
        | Inr strong_edges \<Rightarrow>
            (case first_last (dense_indices (8/100) work_img strong_edges) of
               None \<Rightarrow> Inr (fallback_center_crop img)
             | Some detected \<Rightarrow>
                 Inr (clamp_box img (scale_back ratio
                        (add_margin work_img margin_percent (adjust_ratio detected))))))"

section \<open>smart\_crop\_card.py\<close>

text \<open>Resize keeping the aspect ratio (smart\_crop\_card.py 27--35).\<close>

definition downscale_contour ::
  "(image \<Rightarrow> nat \<times> nat \<Rightarrow> image) \<Rightarrow> image \<Rightarrow> image \<times> real" where
  "downscale_contour resize img =
     (let max_dimension = 1000
      in if max_dimension < width img \<or> max_dimension < height img
         then let ratio = min (fl (real max_dimension / real (width img)))
                              (fl (real max_dimension / real (height img)));
                  new_size = (nat (py_int (fl (real (width img) * ratio))),
                              nat (py_int (fl (real (height img) * ratio))))
              in (resize img new_size, ratio)
         else (img, 1))"

text \<open>The mask: above the 90th percentile of all edge strengths (smart\_crop\_card.py 48--49).\<close>

definition strong_edges_contour :: "nat list list \<Rightarrow> error + bool list list" where
  "strong_edges_contour edge_array =
     (case np_percentile (concat edge_array) 90 of
        Inl e \<Rightarrow> Inl e
      | Inr threshold \<Rightarrow> Inr (map (map (\<lambda>p. threshold < real p)) edge_array))"

text \<open>The centre crop of the working image (smart\_crop\_card.py 61--65).\<close>

definition contour_fallback :: "image \<Rightarrow> box" where
  "contour_fallback working_img =
     (let margin_h = py_int (fl (real (height working_img) * fl (15/100)));
          margin_w = py_int (fl (real (width working_img) * fl (20/100)))
      in (margin_w, margin_h,
          int (width working_img) - margin_w, int (height working_img) - margin_h))"

text \<open>Padding of 2\% of the detected size (smart\_crop\_card.py 73--83).\<close>

definition smart_padding :: "image \<Rightarrow> box \<Rightarrow> box" where
  "smart_padding working_img bx =
     (case bx of (left, top', right, bottom) \<Rightarrow>
        let padding_h = py_int (fl (real_of_int (bottom - top') * fl (2/100)));
            padding_w = py_int (fl (real_of_int (right - left) * fl (2/100)))
        in (max 0 (left - padding_w), max 0 (top' - padding_h),
            min (int (width working_img)) (right + padding_w),
            min (int (height working_img)) (bottom + padding_h)))"

text \<open>
  The conservative crop: the width is capped at 60\% of the working width and the height
  \<open>card_width * 1.4\<close> stays a float (smart\_crop\_card.py 93--103).
\<close>

definition recenter_capped :: "image \<Rightarrow> box \<Rightarrow> box" where
  "recenter_capped working_img bx =
     (case bx of (left, top', right, bottom) \<Rightarrow>
        let center_x = (left + right) div 2;
            center_y = (top' + bottom) div 2;
            card_width = min (real_of_int (right - left))
                             (fl (real (width working_img) * fl (6/10)));
            card_height = fl (card_width * fl (14/10))
        in (py_int (fl (real_of_int center_x - fl (card_width / 2))),
            py_int (fl (real_of_int center_y - fl (card_height / 2))),
            py_int (fl (real_of_int center_x + fl (card_width / 2))),
            py_int (fl (real_of_int center_y + fl (card_height / 2)))))"

text \<open>The aspect check against 1.2 and 2.0 (smart\_crop\_card.py 86--109).\<close>

definition conservative_crop :: "image \<Rightarrow> box \<Rightarrow> box" where
  "conservative_crop working_img bx =
     (let detected_ratio = aspect bx
      in if detected_ratio < fl (12/10) \<or> 2 < detected_ratio
         then clamp_box working_img (recenter_capped working_img bx) else bx)"

definition find_card_contour ::
  "(image \<Rightarrow> nat \<times> nat \<Rightarrow> image) \<Rightarrow> (image \<Rightarrow> image) \<Rightarrow> image \<Rightarrow> error + box \<times> real" where
  "find_card_contour resize find_edges img =
     (case downscale_contour resize img of (working_img, scale_factor) \<Rightarrow>
        case strong_edges_contour (pixels (find_edges working_img)) of
          Inl e \<Rightarrow> Inl e
        | Inr strong_edges \<Rightarrow>
            (case first_last (any_indices working_img strong_edges) of
               None \<Rightarrow> Inr (contour_fallback working_img, scale_factor)
             | Some detected \<Rightarrow>
                 Inr (conservative_crop working_img (smart_padding working_img detected),
                      scale_factor)))"

text \<open>
  The box \<open>crop_card_smart\<close> crops to: the coordinates of \<open>find_card_contour\<close> divided by
  the scale (smart\_crop\_card.py 133--139).
\<close>

definition crop_card_smart ::
  "(image \<Rightarrow> nat \<times> nat \<Rightarrow> image) \<Rightarrow> (image \<Rightarrow> image) \<Rightarrow> image \<Rightarrow> error + box" where
  "crop_card_smart resize find_edges img =
     (case find_card_contour resize find_edges img of
        Inl e \<Rightarrow> Inl e
      | Inr (bx, scale) \<Rightarrow> Inr (scale_back scale bx))"

section \<open>crop\_card.py\<close>

text \<open>
  \<open>find_card_boundaries\<close> on the grey image, with a padding in pixels; \<open>None\<close> as in the
  source (crop\_card.py 36--56). The padding is added to a numpy index, so the sum and
  the difference wrap around at \<open>2^63\<close>.
\<close>

definition find_card_boundaries :: "image \<Rightarrow> int \<Rightarrow> box option" where
  "find_card_boundaries gray padding =
     (case first_last (any_indices gray (dark_mask (5/10) (pixels gray))) of
        None \<Rightarrow> None
      | Some (left, top', right, bottom) \<Rightarrow>
          Some (max 0 (wrap64 (left - padding)), max 0 (wrap64 (top' - padding)),
                min (int (width gray)) (wrap64 (right + padding)),
                min (int (height gray)) (wrap64 (bottom + padding))))"

text \<open>The box \<open>crop_card\<close> crops to (crop\_card.py 75--87).\<close>

definition crop_card :: "image \<Rightarrow> int \<Rightarrow> box" where
  "crop_card gray padding =
     (case find_card_boundaries gray padding of
        None \<Rightarrow>
          (py_int (fl (real (width gray) * fl (15/100))),
           py_int (fl (real (height gray) * fl (5/100))),
           py_int (fl (real (width gray) * fl (85/100))),
           py_int (fl (real (height gray) * fl (95/100))))
      | Some boundaries \<Rightarrow> boundaries)"

section \<open>What each script detects\<close>

text \<open>
  The box found by each script before any margin, in working coordinates; \<open>None\<close> when
  the array of rows or the array of columns is empty, which is when the script takes its
  fallback.
\<close>

definition dark_region :: "(image \<Rightarrow> nat \<times> nat \<Rightarrow> image) \<Rightarrow> image \<Rightarrow> box option" where
  "dark_region resize gray =
     (case downscale 800 resize gray of (gray_work, ratio) \<Rightarrow>
        first_last (dense_indices (15/100) gray_work (dark_mask (8/10) (pixels gray_work))))"

definition edge_region ::
  "(image \<Rightarrow> nat \<times> nat \<Rightarrow> image) \<Rightarrow> (image \<Rightarrow> image) \<Rightarrow> image \<Rightarrow> error + box option" where
  "edge_region resize find_edges img =
     (case downscale 1200 resize img of (work_img, ratio) \<Rightarrow>
        case strong_edges_v2 (pixels (find_edges work_img)) of
          Inl e \<Rightarrow> Inl e
        | Inr strong_edges \<Rightarrow> Inr (first_last (dense_indices (8/100) work_img strong_edges)))"

definition contour_region ::
  "(image \<Rightarrow> nat \<times> nat \<Rightarrow> image) \<Rightarrow> (image \<Rightarrow> image) \<Rightarrow> image \<Rightarrow> error + box option" where
  "contour_region resize find_edges img =
     (case downscale_contour resize img of (working_img, scale_factor) \<Rightarrow>
        case strong_edges_contour (pixels (find_edges working_img)) of
          Inl e \<Rightarrow> Inl e
        | Inr strong_edges \<Rightarrow> Inr (first_last (any_indices working_img strong_edges)))"

definition content_region :: "image \<Rightarrow> box option" where
  "content_region gray = first_last (any_indices gray (dark_mask (5/10) (pixels gray)))"

text \<open>The number of mask pixels in a row and in a column.\<close>

definition row_count :: "bool list list \<Rightarrow> nat \<Rightarrow> nat" where
  "row_count msk i = length (filter id (msk ! i))"

definition col_count :: "bool list list \<Rightarrow> nat \<Rightarrow> nat" where
  "col_count msk j = length (filter (\<lambda>row. row ! j) msk)"

definition wf_mask :: "image \<Rightarrow> bool list list \<Rightarrow> bool" where
  "wf_mask work msk \<longleftrightarrow>
     length msk = height work \<and> list_all (\<lambda>row. length row = width work) msk"

text \<open>\<open>int(k / 100)\<close> for an integer \<open>k\<close>: the quotient truncated towards zero.\<close>

definition trunc_percent :: "int \<Rightarrow> int" where
  "trunc_percent k = (if 0 \<le> k then k div 100 else - ((- k) div 100))"

section \<open>Properties of boxes\<close>

text \<open>
  The box invariant of the specification, \<open>0 \<le> left < right \<le> width\<close> and
  \<open>0 \<le> top < bottom \<le> height\<close>, and the same with \<open>\<le>\<close> throughout.
\<close>

definition valid_box :: "image \<Rightarrow> box \<Rightarrow> bool" where
  "valid_box img bx =
     (case bx of (l, t, r, b) \<Rightarrow>
        0 \<le> l \<and> l < r \<and> r \<le> int (width img) \<and> 0 \<le> t \<and> t < b \<and> b \<le> int (height img))"

definition weak_box :: "image \<Rightarrow> box \<Rightarrow> bool" where
  "weak_box img bx =
     (case bx of (l, t, r, b) \<Rightarrow>
        0 \<le> l \<and> l \<le> r \<and> r \<le> int (width img) \<and> 0 \<le> t \<and> t \<le> b \<and> b \<le> int (height img))"

definition nondegenerate :: "box \<Rightarrow> bool" where
  "nondegenerate bx = (case bx of (l, t, r, b) \<Rightarrow> 0 < r - l \<and> 0 < b - t)"

text \<open>An image all of whose pixels have the value \<open>c\<close>.\<close>

definition uniform_pixels :: "image \<Rightarrow> nat \<Rightarrow> bool" where
  "uniform_pixels im c \<longleftrightarrow> (\<forall>row\<in>set (pixels im). \<forall>p\<in>set row. p = c)"

text \<open>Width, height and centre of a box, the centre as the scripts compute it.\<close>

definition box_width :: "box \<Rightarrow> int" where
  "box_width bx = (case bx of (l, t, r, b) \<Rightarrow> r - l)"

definition box_height :: "box \<Rightarrow> int" where
  "box_height bx = (case bx of (l, t, r, b) \<Rightarrow> b - t)"


text \<open>
  The box of \<open>find_dark_rectangle\<close> after margin and scaling, before the check of the
  aspect ratio.
\<close>

definition margin_box :: "(image \<Rightarrow> nat \<times> nat \<Rightarrow> image) \<Rightarrow> image \<Rightarrow> int \<Rightarrow> box option" where
  "margin_box resize gray margin_percent =
     (case dark_region resize gray of
        None \<Rightarrow> None
      | Some detected \<Rightarrow>
          Some (scale_back (snd (downscale 800 resize gray))
                  (add_margin (fst (downscale 800 resize gray)) margin_percent
                     (NumpyInt64, detected))))"

text \<open>
  The control flow of the specification: the boundary estimate, the fallback when it is
  empty, otherwise the aspect-ratio corrector, then the margin, then the rescaling.
\<close>

definition spec_pipeline ::
  "(box \<Rightarrow> 'a) \<Rightarrow> ('a \<Rightarrow> box) \<Rightarrow> (box \<Rightarrow> box) \<Rightarrow> box \<Rightarrow> box option \<Rightarrow> box" where
  "spec_pipeline corrector margin_applier rescale fallback estimate =
     (case estimate of
        None \<Rightarrow> fallback
      | Some bx \<Rightarrow> rescale (margin_applier (corrector bx)))"





text \<open>
  The fallback of the specification: on each side a margin between 15\% and 20\% of the
  image, up to the pixel lost to truncation.
\<close>

definition margin_in_band :: "nat \<Rightarrow> int \<Rightarrow> bool" where
  "margin_in_band d m \<longleftrightarrow> 15 * int d \<le> 100 * (m + 1) \<and> 100 * (m - 1) \<le> 20 * int d"

definition fallback_in_band :: "image \<Rightarrow> box \<Rightarrow> bool" where
  "fallback_in_band img bx =
     (case bx of (l, t, r, b) \<Rightarrow>
        margin_in_band (width img) l \<and> margin_in_band (height img) t \<and>
        margin_in_band (width img) (int (width img) - r) \<and>
        margin_in_band (height img) (int (height img) - b))"

text \<open>An image of a single level, and the images used as examples.\<close>

definition uniform_image :: "nat \<Rightarrow> nat \<Rightarrow> nat \<Rightarrow> image" where
  "uniform_image w h c = \<lparr>width = w, height = h, pixels = replicate h (replicate w c)\<rparr>"

text \<open>
  \<open>blank_resize\<close> returns an image of the requested size; it stands for \<open>Image.resize\<close>
  where no example below is large enough to be resized. \<open>card_photo\<close> is 12 by 18 with a
  dark card on columns 3 to 8 and rows 4 to 13; \<open>speck_photo\<close> is one row of 13 pixels, the
  last one dark.
\<close>

definition blank_resize :: "image \<Rightarrow> nat \<times> nat \<Rightarrow> image" where
  "blank_resize im sz = uniform_image (fst sz) (snd sz) 0"

definition card_photo :: image where
  "card_photo =
     \<lparr>width = 12, height = 18,
      pixels = replicate 4 (replicate 12 255) @
               replicate 10 (replicate 3 255 @ replicate 6 0 @ replicate 3 255) @
               replicate 4 (replicate 12 255)\<rparr>"


text \<open>\<open>dot_photo\<close> is 4 by 4 with one dark pixel in row 1, column 1.\<close>

definition dot_photo :: image where
  "dot_photo =
     \<lparr>width = 4, height = 4,
      pixels = [replicate 4 255, [255, 0, 255, 255], replicate 4 255, replicate 4 255]\<rparr>"

text \<open>
  \<open>edge_photo\<close> is an edge image of 10 by 12: strength 10 everywhere but on the outline
  of the square of columns 3 to 7 and rows 3 to 7, where it is 255. \<open>speck_edges\<close>
  is an edge image of one row of 21 strengths, all zero but the last.
\<close>

definition edge_photo :: image where
  "edge_photo =
     \<lparr>width = 10, height = 12,
      pixels = replicate 3 (replicate 10 10) @
               [replicate 3 10 @ replicate 5 255 @ replicate 2 10] @
               replicate 3 (replicate 3 10 @ [255] @ replicate 3 10 @ [255] @ replicate 2 10) @
               [replicate 3 10 @ replicate 5 255 @ replicate 2 10] @
               replicate 4 (replicate 10 10)\<rparr>"

definition speck_edges :: image where
  "speck_edges = \<lparr>width = 21, height = 1, pixels = [replicate 20 0 @ [7]]\<rparr>"

section \<open>Rounding to binary64\<close>

lemma expo_ge1:
  assumes "1 \<le> (a::real)"
  shows "2 powi (bitlen \<lfloor>a\<rfloor> - 1) \<le> a \<and> a < 2 powi (bitlen \<lfloor>a\<rfloor> - 1 + 1)"
proof -
  let ?n = "\<lfloor>a\<rfloor>"
  have n: "0 < ?n" using assms by simp
  have b: "2 ^ nat (bitlen ?n - 1) \<le> ?n" "?n < 2 ^ nat (bitlen ?n)"
    using bitlen_bounds[OF n] by auto
  have b1: "1 \<le> bitlen ?n" using n by (simp add: bitlen_alt_def)
  have "(2::real) ^ nat (bitlen ?n - 1) \<le> of_int ?n"
    using b(1) by (metis of_int_le_iff of_int_numeral of_int_power)
  also have "\<dots> \<le> a" by simp
  finally have lo: "(2::real) ^ nat (bitlen ?n - 1) \<le> a" .
  have "?n + 1 \<le> 2 ^ nat (bitlen ?n)" using b(2) by simp
  then have "of_int (?n + 1) \<le> (2::real) ^ nat (bitlen ?n)"
    by (metis of_int_le_iff of_int_numeral of_int_power)
  moreover have "a < of_int (?n + 1)" by linarith
  ultimately have hi: "a < (2::real) ^ nat (bitlen ?n)" by linarith
  show ?thesis using lo hi b1 by (simp add: power_int_def)
qed

lemma expo_lt1:
  assumes "0 < (a::real)" "a < 1"
  shows "2 powi (- bitlen (\<lceil>1 / a\<rceil> - 1)) \<le> a \<and> a < 2 powi (- bitlen (\<lceil>1 / a\<rceil> - 1) + 1)"
proof -
  let ?y = "1 / a"
  let ?n = "\<lceil>?y\<rceil> - 1"
  have y: "1 < ?y" using assms by simp
  have n: "0 < ?n" using y by (simp add: less_ceiling_iff)
  have b: "2 ^ nat (bitlen ?n - 1) \<le> ?n" "?n < 2 ^ nat (bitlen ?n)"
    using bitlen_bounds[OF n] by auto
  have b1: "1 \<le> bitlen ?n" using n by (simp add: bitlen_alt_def)
  have "(2::real) ^ nat (bitlen ?n - 1) \<le> of_int ?n"
    using b(1) by (metis of_int_le_iff of_int_numeral of_int_power)
  moreover have "of_int ?n < ?y" by linarith
  ultimately have lo: "(2::real) ^ nat (bitlen ?n - 1) < ?y" by linarith
  have "?n + 1 \<le> 2 ^ nat (bitlen ?n)" using b(2) by simp
  then have "of_int (?n + 1) \<le> (2::real) ^ nat (bitlen ?n)"
    by (metis of_int_le_iff of_int_numeral of_int_power)
  moreover have "?y \<le> of_int (?n + 1)" by linarith
  ultimately have hi: "?y \<le> (2::real) ^ nat (bitlen ?n)" by linarith
  have p: "(0::real) < 2 ^ nat (bitlen ?n)" "(0::real) < 2 ^ nat (bitlen ?n - 1)" by simp_all
  have A: "1 / 2 ^ nat (bitlen ?n) \<le> a"
    using hi assms(1) p(1) by (simp add: field_simps)
  have B: "a < 1 / 2 ^ nat (bitlen ?n - 1)"
    using lo assms(1) p(2) by (simp add: field_simps)
  have e1: "(2::real) powi (- bitlen ?n) = 1 / 2 ^ nat (bitlen ?n)"
    using b1 by (simp add: power_int_def field_simps)
  have e2: "(2::real) powi (- bitlen ?n + 1) = 1 / 2 ^ nat (bitlen ?n - 1)"
  proof -
    have "- bitlen ?n + 1 = - (bitlen ?n - 1)" by simp
    then show ?thesis using b1 by (simp add: power_int_def field_simps)
  qed
  show ?thesis using A B e1 e2 by simp
qed

lemma expo_bounds:
  assumes "x \<noteq> 0"
  shows "2 powi (expo x) \<le> \<bar>x\<bar> \<and> \<bar>x\<bar> < 2 powi (expo x + 1)"
proof (cases "1 \<le> \<bar>x\<bar>")
  case True
  then show ?thesis using expo_ge1[OF True] by (simp add: expo_def Let_def)
next
  case False
  then have "0 < \<bar>x\<bar>" "\<bar>x\<bar> < 1" using assms by auto
  from expo_lt1[OF this] False show ?thesis by (simp add: expo_def Let_def)
qed


lemma round_even_of_int [simp]: "round_even (of_int n) = n"
  by (simp add: round_even_def)

lemma round_even_cases:
  "round_even q = \<lfloor>q\<rfloor> \<and> q - of_int \<lfloor>q\<rfloor> \<le> 1/2 \<or>
   round_even q = \<lfloor>q\<rfloor> + 1 \<and> 1/2 \<le> q - of_int \<lfloor>q\<rfloor>"
  by (auto simp: round_even_def Let_def)

lemma round_even_err: "\<bar>of_int (round_even q) - q\<bar> \<le> 1/2"
proof -
  have "of_int \<lfloor>q\<rfloor> \<le> q" "q < of_int \<lfloor>q\<rfloor> + 1" by linarith+
  then show ?thesis using round_even_cases[of q] by auto
qed

lemma round_even_mono:
  assumes "q \<le> q'"
  shows "round_even q \<le> round_even q'"
proof -
  have f: "\<lfloor>q\<rfloor> \<le> \<lfloor>q'\<rfloor>" using assms by (rule floor_mono)
  show ?thesis
  proof (cases "\<lfloor>q\<rfloor> = \<lfloor>q'\<rfloor>")
    case True
    then have "q - of_int \<lfloor>q\<rfloor> \<le> q' - of_int \<lfloor>q'\<rfloor>" using assms by simp
    then show ?thesis using True by (auto simp: round_even_def Let_def)
  next
    case False
    then have "\<lfloor>q\<rfloor> + 1 \<le> \<lfloor>q'\<rfloor>" using f by simp
    moreover have "round_even q \<le> \<lfloor>q\<rfloor> + 1" using round_even_cases[of q] by auto
    moreover have "\<lfloor>q'\<rfloor> \<le> round_even q'" using round_even_cases[of q'] by auto
    ultimately show ?thesis by linarith
  qed
qed

lemma round_even_minus: "round_even (- q) = - round_even q"
proof (cases "q = of_int \<lfloor>q\<rfloor>")
  case True
  then obtain n where "q = of_int n" by metis
  then have "- q = of_int (- n)" by simp
  then show ?thesis using \<open>q = of_int n\<close> by (metis round_even_of_int)
next
  case False
  then have lt: "of_int \<lfloor>q\<rfloor> < q" by (metis of_int_floor_le order_less_le)
  have fm: "\<lfloor>- q\<rfloor> = - \<lfloor>q\<rfloor> - 1"
    using lt by (intro floor_unique) (auto, linarith)
  have ev: "even (- \<lfloor>q\<rfloor> - 1) \<longleftrightarrow> odd \<lfloor>q\<rfloor>" by simp
  show ?thesis
    using lt unfolding round_even_def Let_def fm ev
    by (auto simp: algebra_simps)
qed


lemma expo_minus [simp]: "expo (- x) = expo x"
  by (simp add: expo_def)

lemma fl_zero [simp]: "fl 0 = 0"
  by (simp add: fl_def)

lemma fl_minus: "fl (- x) = - fl x"
  by (simp add: fl_def Let_def round_even_minus)

lemma ulp_pos: "(0::real) < 2 powi k"
  by simp

lemma fl_pos_bounds:
  assumes "0 < x"
  shows "2 powi (expo x) \<le> fl x \<and> fl x \<le> 2 powi (expo x + 1)"
proof -
  define u :: real where "u = 2 powi (expo x - 52)"
  have u: "0 < u" by (simp add: u_def)
  have xb: "2 powi (expo x) \<le> x" "x < 2 powi (expo x + 1)"
    using expo_bounds[of x] assms by auto
  have e1: "2 powi (expo x) = 2 ^ 52 * u"
    unfolding u_def by (simp add: power_int_diff)
  have e2: "2 powi (expo x + 1) = 2 ^ 53 * u"
    unfolding u_def by (simp add: power_int_diff power_int_add)
  have m1: "2 ^ 52 \<le> x / u" using xb(1) u unfolding e1 by (simp add: field_simps)
  have m2: "x / u \<le> 2 ^ 53" using xb(2) u unfolding e2 by (simp add: field_simps)
  have "round_even (of_int (2 ^ 52)) \<le> round_even (x / u)"
    by (rule round_even_mono) (use m1 in simp)
  then have r1: "2 ^ 52 \<le> round_even (x / u)" by (simp only: round_even_of_int)
  have "round_even (x / u) \<le> round_even (of_int (2 ^ 53))"
    by (rule round_even_mono) (use m2 in simp)
  then have r2: "round_even (x / u) \<le> 2 ^ 53" by (simp only: round_even_of_int)
  have flx: "fl x = of_int (round_even (x / u)) * u"
    using assms by (simp add: fl_def Let_def u_def)
  have "(2::real) ^ 52 \<le> of_int (round_even (x / u))"
    using r1 by (metis of_int_le_iff of_int_numeral of_int_power)
  then have A: "2 ^ 52 * u \<le> fl x" unfolding flx using u by simp
  have "of_int (round_even (x / u)) \<le> (2::real) ^ 53"
    using r2 by (metis of_int_le_iff of_int_numeral of_int_power)
  then have B: "fl x \<le> 2 ^ 53 * u" unfolding flx using u by simp
  show ?thesis using A B e1 e2 by simp
qed

lemma expo_mono_pos:
  assumes "0 < x" "x \<le> y"
  shows "expo x \<le> expo y"
proof (rule ccontr)
  assume "\<not> expo x \<le> expo y"
  then have "expo y + 1 \<le> expo x" by simp
  then have "(2::real) powi (expo y + 1) \<le> 2 powi (expo x)"
    by (intro power_int_increasing) auto
  moreover have "2 powi (expo x) \<le> x" using expo_bounds[of x] assms by auto
  moreover have "y < 2 powi (expo y + 1)" using expo_bounds[of y] assms by auto
  ultimately show False using assms by linarith
qed

lemma fl_mono_pos:
  assumes "0 < x" "x \<le> y"
  shows "fl x \<le> fl y"
proof (cases "expo x = expo y")
  case True
  define u :: real where "u = 2 powi (expo x - 52)"
  have u: "0 < u" by (simp add: u_def)
  have "x / u \<le> y / u" using assms u by (simp add: divide_right_mono)
  then have "round_even (x / u) \<le> round_even (y / u)" by (rule round_even_mono)
  then have "of_int (round_even (x / u)) * u \<le> of_int (round_even (y / u)) * u"
    using u by simp
  then show ?thesis using assms True by (simp add: fl_def Let_def u_def)
next
  case False
  then have "expo x + 1 \<le> expo y" using expo_mono_pos[OF assms] by simp
  then have "(2::real) powi (expo x + 1) \<le> 2 powi (expo y)"
    by (intro power_int_increasing) auto
  moreover have "fl x \<le> 2 powi (expo x + 1)" using fl_pos_bounds[of x] assms by simp
  moreover have "2 powi (expo y) \<le> fl y" using fl_pos_bounds[of y] assms by simp
  ultimately show ?thesis by linarith
qed

lemma fl_nonneg: "0 \<le> x \<Longrightarrow> 0 \<le> fl x"
proof -
  assume "0 \<le> x"
  show ?thesis
  proof (cases "x = 0")
    case False
    then have "0 < x" using \<open>0 \<le> x\<close> by simp
    from fl_pos_bounds[OF this] have "2 powi (expo x) \<le> fl x" by simp
    moreover have "(0::real) < 2 powi (expo x)" by simp
    ultimately show ?thesis by linarith
  qed simp
qed

lemma fl_nonpos: "x \<le> 0 \<Longrightarrow> fl x \<le> 0"
  using fl_nonneg[of "- x"] by (simp add: fl_minus)

lemma fl_mono:
  assumes "x \<le> y"
  shows "fl x \<le> fl y"
proof -
  consider "0 < x" | "x \<le> 0" "0 \<le> y" | "y < 0" by linarith
  then show ?thesis
  proof cases
    case 1
    then show ?thesis using assms by (rule fl_mono_pos)
  next
    case 2
    then show ?thesis using fl_nonneg[of y] fl_nonpos[of x] by linarith
  next
    case 3
    then have "0 < - y" "- y \<le> - x" using assms by simp_all
    from fl_mono_pos[OF this] show ?thesis by (simp add: fl_minus)
  qed
qed

lemma fl_error_pos:
  assumes "0 < x"
  shows "\<bar>fl x - x\<bar> \<le> x / 2 ^ 53"
proof -
  define u :: real where "u = 2 powi (expo x - 52)"
  have u: "0 < u" by (simp add: u_def)
  have flx: "fl x = of_int (round_even (x / u)) * u"
    using assms by (simp add: fl_def Let_def u_def)
  have "fl x - x = (of_int (round_even (x / u)) - x / u) * u"
    unfolding flx using u by (simp add: algebra_simps)
  then have "\<bar>fl x - x\<bar> = \<bar>of_int (round_even (x / u)) - x / u\<bar> * u"
    using u by (simp add: abs_mult)
  also have "\<dots> \<le> (1/2) * u"
    using round_even_err[of "x / u"] u by (intro mult_right_mono) auto
  finally have A: "\<bar>fl x - x\<bar> \<le> u / 2" by simp
  have e1: "2 powi (expo x) = 2 ^ 52 * u"
    unfolding u_def by (simp add: power_int_diff)
  have "2 ^ 52 * u \<le> x" using expo_bounds[of x] assms e1 by auto
  then have "u / 2 \<le> x / 2 ^ 53" by simp
  with A show ?thesis by linarith
qed

lemma fl_error: "\<bar>fl x - x\<bar> \<le> \<bar>x\<bar> / 2 ^ 53"
proof -
  consider "0 < x" | "x = 0" | "x < 0" by linarith
  then show ?thesis
  proof cases
    case 1
    then show ?thesis using fl_error_pos[of x] by simp
  next
    case 2
    then show ?thesis by simp
  next
    case 3
    then have "0 < - x" by simp
    from fl_error_pos[OF this] show ?thesis using 3 by (simp add: fl_minus)
  qed
qed


lemma fl_exact_pos:
  assumes "0 < n" "n < 2 ^ 53"
  shows "fl (of_int n * 2 powi k) = of_int n * 2 powi k"
proof -
  define x :: real where "x = of_int n * 2 powi k"
  have x: "0 < x" using assms by (simp add: x_def)
  define j where "j = k - expo x + 52"
  have "expo x < 53 + k"
  proof (rule ccontr)
    assume "\<not> expo x < 53 + k"
    then have "(2::real) powi (53 + k) \<le> 2 powi (expo x)"
      by (intro power_int_increasing) auto
    also have "\<dots> \<le> x" using expo_bounds[of x] x by auto
    finally have "(2::real) ^ 53 * 2 powi k \<le> of_int n * 2 powi k"
      by (simp add: x_def power_int_add)
    then have "(2::real) ^ 53 \<le> of_int n" by simp
    moreover have "of_int n < (2::real) ^ 53"
      using assms(2) by (metis of_int_less_iff of_int_numeral of_int_power)
    ultimately show False by linarith
  qed
  then have j: "0 \<le> j" by (simp add: j_def)
  have q: "x / 2 powi (expo x - 52) = of_int (n * 2 ^ nat j)"
  proof -
    have "x / 2 powi (expo x - 52) = of_int n * (2 powi k / 2 powi (expo x - 52))"
      by (simp add: x_def)
    also have "2 powi k / 2 powi (expo x - 52) = (2::real) powi j"
      unfolding j_def by (simp add: power_int_diff power_int_add field_simps)
    also have "(2::real) powi j = 2 ^ nat j" using j by (simp add: power_int_def)
    finally show ?thesis by simp
  qed
  have "fl x = of_int (n * 2 ^ nat j) * 2 powi (expo x - 52)"
    using x unfolding fl_def Let_def q by (simp only: round_even_of_int) simp
  also have "\<dots> = of_int n * ((2::real) powi j * 2 powi (expo x - 52))"
    using j by (simp add: power_int_def)
  also have "(2::real) powi j * 2 powi (expo x - 52) = 2 powi k"
    unfolding j_def by (simp add: power_int_diff power_int_add field_simps)
  finally show ?thesis by (simp add: x_def)
qed

lemma fl_exact:
  assumes "\<bar>n\<bar> < 2 ^ 53"
  shows "fl (of_int n * 2 powi k) = of_int n * 2 powi k"
proof -
  consider "0 < n" | "n = 0" | "n < 0" by linarith
  then show ?thesis
  proof cases
    case 1
    then show ?thesis using assms by (intro fl_exact_pos) auto
  next
    case 2
    then show ?thesis by simp
  next
    case 3
    then have "0 < - n" "- n < 2 ^ 53" using assms by auto
    from fl_exact_pos[OF this, of k] show ?thesis by (simp add: fl_minus)
  qed
qed

lemma fl_of_int: "\<bar>n\<bar> < 2 ^ 53 \<Longrightarrow> fl (of_int n) = of_int n"
  using fl_exact[of n 0] by simp

lemma fl_half: "\<bar>n\<bar> < 2 ^ 53 \<Longrightarrow> fl (of_int n / 2) = of_int n / 2"
  using fl_exact[of n "-1"] by (simp add: power_int_minus field_simps)

lemma py_int_of_int [simp]: "py_int (of_int n) = n"
  by (simp add: py_int_def)

lemma py_int_mono:
  assumes "x \<le> y"
  shows "py_int x \<le> py_int y"
proof -
  consider "0 \<le> x" | "x < 0" "0 \<le> y" | "y < 0" by linarith
  then show ?thesis
  proof cases
    case 1
    then show ?thesis using assms by (simp add: py_int_def floor_mono)
  next
    case 2
    then have "\<lceil>x\<rceil> \<le> 0" "0 \<le> \<lfloor>y\<rfloor>" by (simp_all add: ceiling_le_iff)
    then have "\<lceil>x\<rceil> \<le> \<lfloor>y\<rfloor>" by linarith
    then show ?thesis using 2 by (simp add: py_int_def)
  next
    case 3
    then show ?thesis using assms by (simp add: py_int_def ceiling_mono)
  qed
qed

lemma py_int_nonneg: "0 \<le> x \<Longrightarrow> 0 \<le> py_int x"
  by (simp add: py_int_def)

lemma py_int_le: "0 \<le> x \<Longrightarrow> of_int (py_int x) \<le> x"
  by (simp add: py_int_def)


lemma expo_unique:
  assumes "2 powi e \<le> \<bar>x\<bar>" "\<bar>x\<bar> < 2 powi (e + 1)"
  shows "expo x = e"
proof -
  have x0: "x \<noteq> 0"
  proof
    assume "x = 0"
    then have "(2::real) powi e \<le> 0" using assms(1) by simp
    moreover have "(0::real) < 2 powi e" by simp
    ultimately show False by linarith
  qed
  note b = expo_bounds[OF x0]
  have "\<not> expo x < e"
  proof
    assume "expo x < e"
    then have "(2::real) powi (expo x + 1) \<le> 2 powi e"
      by (intro power_int_increasing) auto
    then show False using b assms by linarith
  qed
  moreover have "\<not> e < expo x"
  proof
    assume "e < expo x"
    then have "(2::real) powi (e + 1) \<le> 2 powi (expo x)"
      by (intro power_int_increasing) auto
    then show False using b assms by linarith
  qed
  ultimately show ?thesis by simp
qed

lemma fl_eval:
  assumes "2 powi e \<le> \<bar>x\<bar>" "\<bar>x\<bar> < 2 powi (e + 1)"
  shows "fl x = of_int (round_even (x / 2 powi (e - 52))) * 2 powi (e - 52)"
proof -
  have "x \<noteq> 0"
  proof
    assume "x = 0"
    then have "(2::real) powi e \<le> 0" using assms(1) by simp
    moreover have "(0::real) < 2 powi e" by simp
    ultimately show False by linarith
  qed
  then show ?thesis using expo_unique[OF assms] by (simp add: fl_def Let_def)
qed

lemma round_even_near:
  assumes "\<bar>q - of_int N\<bar> < 1/2"
  shows "round_even q = N"
proof -
  consider "q = of_int N" | "of_int N < q" | "q < of_int N" by linarith
  then show ?thesis
  proof cases
    case 1
    then show ?thesis by simp
  next
    case 2
    then have "\<lfloor>q\<rfloor> = N" using assms by (intro floor_unique) auto
    then show ?thesis using assms 2 by (simp add: round_even_def Let_def)
  next
    case 3
    then have "\<lfloor>q\<rfloor> = N - 1" using assms by (intro floor_unique) auto
    then show ?thesis using assms 3 by (simp add: round_even_def Let_def)
  qed
qed

lemma fl_near_below:
  fixes k :: int
  assumes k: "0 < k" "k < 2 ^ 53"
    and y: "of_int k * (1 - 1 / 2 ^ 54) < y" "y \<le> of_int k"
  shows "fl y = of_int k"
proof -
  define e where "e = expo (of_int k)"
  define u :: real where "u = 2 powi (e - 52)"
  have u: "0 < u" by (simp add: u_def)
  have k0: "real_of_int k \<noteq> 0" using k by simp
  have kb: "2 powi e \<le> real_of_int k" "real_of_int k < 2 powi (e + 1)"
    using expo_bounds[OF k0] k by (simp_all add: e_def)
  have e1: "2 powi e = 2 ^ 52 * u" unfolding u_def by (simp add: power_int_diff)
  have e2: "2 powi (e + 1) = 2 ^ 53 * u" unfolding u_def by (simp add: power_int_diff power_int_add)
  have e3: "2 powi (e - 1) = 2 ^ 51 * u" unfolding u_def by (simp add: power_int_diff)
  have kr: "real_of_int k < 2 ^ 53"
    using k(2) by (metis of_int_less_iff of_int_numeral of_int_power)
  have "e < 53"
  proof (rule ccontr)
    assume "\<not> e < 53"
    then have "(2::real) powi 53 \<le> 2 powi e" by (intro power_int_increasing) auto
    then show False using kb(1) kr by simp
  qed
  then have e52: "0 \<le> 52 - e" by simp
  define n where "n = k * 2 ^ nat (52 - e)"
  have un: "u * 2 ^ nat (52 - e) = 1"
  proof -
    have "(2::real) ^ nat (52 - e) = 2 powi (52 - e)" using e52 by (simp add: power_int_def)
    then have "u * 2 ^ nat (52 - e) = 2 powi (e - 52) * 2 powi (52 - e)" by (simp add: u_def)
    also have "\<dots> = 2 powi ((e - 52) + (52 - e))" by (subst power_int_add) auto
    finally show ?thesis by simp
  qed
  have kn: "real_of_int k = of_int n * u"
  proof -
    have "of_int n * u = real_of_int k * (u * 2 ^ nat (52 - e))" by (simp add: n_def)
    then show ?thesis using un by simp
  qed
  have ypos: "0 < y"
  proof -
    have "(0::real) < of_int k * (1 - 1 / 2 ^ 54)" using k by simp
    then show ?thesis using y by linarith
  qed
  have q4: "real_of_int k / 2 ^ 54 < u / 2"
  proof -
    have "real_of_int k / 2 ^ 54 < 2 ^ 53 * u / 2 ^ 54" using kb(2) e2 by (simp add: divide_strict_right_mono)
    then show ?thesis by simp
  qed
  have ylow: "real_of_int k - real_of_int k / 2 ^ 54 < y" using y(1) by (simp add: algebra_simps)
  show ?thesis
  proof (cases "real_of_int k = 2 ^ 52 * u")
    case True
    show ?thesis
    proof (cases "y = of_int k")
      case True
      then show ?thesis using fl_of_int[of k] k by simp
    next
      case False
      then have ylt: "y < 2 ^ 52 * u" using y(2) True by simp
      have "real_of_int k / 2 ^ 54 = u / 4" using True by simp
      then have ygt: "2 ^ 52 * u - u / 4 < y" using ylow True by simp
      have "2 ^ 51 * u \<le> 2 ^ 52 * u - u / 4" using u by simp
      then have "2 powi (e - 1) \<le> \<bar>y\<bar>" "\<bar>y\<bar> < 2 powi (e - 1 + 1)"
        using ygt ylt ypos e1 e3 by simp_all
      from fl_eval[OF this]
      have f: "fl y = of_int (round_even (y / 2 powi (e - 1 - 52))) * 2 powi (e - 1 - 52)" .
      have u2: "2 powi (e - 1 - 52) = u / 2" unfolding u_def by (simp add: power_int_diff)
      have "\<bar>y / (u / 2) - of_int (2 ^ 53)\<bar> < 1 / 2"
        using ygt ylt u by (simp add: field_simps)
      then have "round_even (y / (u / 2)) = 2 ^ 53" by (rule round_even_near)
      then have "fl y = 2 ^ 53 * (u / 2)" unfolding f u2 by simp
      then show ?thesis using True by simp
    qed
  next
    case False
    have "2 ^ 52 * u \<le> of_int n * u" using kb(1) e1 kn by simp
    then have "(2::real) ^ 52 \<le> of_int n" using u by simp
    moreover have "real_of_int n \<noteq> 2 ^ 52" using False kn by auto
    ultimately have "(2::real) ^ 52 < of_int n" by simp
    then have "real_of_int (2 ^ 52) < of_int n" by simp
    then have "(2::int) ^ 52 < n" by (simp only: of_int_less_iff)
    then have "(2::int) ^ 52 + 1 \<le> n" by simp
    then have "real_of_int (2 ^ 52 + 1) \<le> of_int n" by (simp only: of_int_le_iff)
    then have n1: "(2::real) ^ 52 + 1 \<le> of_int n" by simp
    have ygt: "of_int n * u - u / 2 < y" using ylow q4 kn by linarith
    have "2 ^ 52 * u \<le> of_int n * u - u / 2"
    proof -
      have "(2 ^ 52 + 1) * u \<le> of_int n * u" using n1 u by (intro mult_right_mono) auto
      then show ?thesis using u by (simp add: algebra_simps)
    qed
    then have "2 powi e \<le> \<bar>y\<bar>" "\<bar>y\<bar> < 2 powi (e + 1)"
      using ygt y(2) kb(2) ypos e1 by simp_all
    from fl_eval[OF this]
    have f: "fl y = of_int (round_even (y / u)) * u" by (simp add: u_def)
    have "\<bar>y / u - of_int n\<bar> < 1 / 2"
      using ygt y(2) u kn by (simp add: field_simps)
    then have "round_even (y / u) = n" by (rule round_even_near)
    then show ?thesis using f kn by simp
  qed
qed


lemma fl_upper: "0 \<le> x \<Longrightarrow> fl x \<le> x + x / 2 ^ 53"
  using fl_error[of x] by (simp only: abs_le_iff abs_of_nonneg) linarith

lemma fl_lower: "0 \<le> x \<Longrightarrow> x - x / 2 ^ 53 \<le> fl x"
  using fl_error[of x] by (simp only: abs_le_iff abs_of_nonneg) linarith

lemma fl_scale_less_iff:
  fixes n p q :: nat and k :: int
  assumes n: "n < 2 ^ 31" and c: "near_frac c p q"
  shows "fl (real n * c) < of_int k \<longleftrightarrow> int (n * p) < k * int q"
proof -
  define P where "P = real p / real q"
  define t where "t = real n * P"
  define y where "y = real n * c"
  have pq: "0 < p" "p \<le> 200" "0 < q" "q \<le> 100"
    and c_lo: "P * (1 - 1 / 2 ^ 54) < c" and c_hi: "c \<le> P * (1 + 1 / 2 ^ 52)"
    using c by (simp_all add: near_frac_def P_def)
  have P0: "0 < P" using pq by (simp add: P_def)
  have "real p / real q \<le> real p" using pq by (simp add: field_simps mult_le_cancel_left1)
  then have P200: "P \<le> 200" using pq by (simp add: P_def)
  have n31: "real n \<le> 2 ^ 31" using n by (metis less_imp_le of_nat_le_iff of_nat_numeral of_nat_power)
  have t0: "0 \<le> t" using P0 by (simp add: t_def)
  have "real n * P \<le> 2 ^ 31 * 200" using n31 P200 P0 by (intro mult_mono) auto
  then have tb: "t \<le> 2 ^ 31 * 200" by (simp add: t_def)
  have c0: "0 < c"
  proof -
    have "0 < P * (1 - 1 / 2 ^ 54)" using P0 by simp
    then show ?thesis using c_lo by linarith
  qed
  have y0: "0 \<le> y" using c0 by (simp add: y_def)
  have yt_hi: "y \<le> t + t / 2 ^ 52"
  proof -
    have "real n * c \<le> real n * (P * (1 + 1 / 2 ^ 52))" using c_hi by (intro mult_left_mono) auto
    then show ?thesis by (simp add: y_def t_def algebra_simps)
  qed
  have yt_lo: "t - t / 2 ^ 54 \<le> y"
  proof -
    have "real n * (P * (1 - 1 / 2 ^ 54)) \<le> real n * c" using c_lo by (intro mult_left_mono) auto
    then show ?thesis by (simp add: y_def t_def algebra_simps)
  qed
  have fe1: "fl y \<le> y + y / 2 ^ 53" using y0 by (rule fl_upper)
  have fe2: "y - y / 2 ^ 53 \<le> fl y" using y0 by (rule fl_lower)
  have up: "fl y < t + 1 / 100" using fe1 yt_hi tb t0 by simp
  have lo: "t - 1 / 100 < fl y" using fe2 yt_lo yt_hi tb t0 by simp
  have q100: "1 / 100 \<le> 1 / real q" using pq by (simp add: field_simps)
  have tq: "t * real q = real (n * p)" using pq by (simp add: t_def P_def)
  have "fl y < of_int k \<longleftrightarrow> int (n * p) < k * int q"
  proof
    assume a: "fl y < of_int k"
    show "int (n * p) < k * int q"
    proof (rule ccontr)
      assume "\<not> int (n * p) < k * int q"
      then have ge: "k * int q \<le> int (n * p)" by simp
      show False
      proof (cases "k * int q = int (n * p)")
        case True
        then have "real_of_int (k * int q) = real (n * p)" by simp
        then have "real_of_int k * real q = t * real q" using tq by simp
        then have tk: "t = of_int k" using pq by simp
        show False
        proof (cases "0 < k")
          case False
          then have "real_of_int k \<le> 0" by simp
          then show False using a fl_nonneg[OF y0] by (simp add: y_def)
        next
          case kpos: True
          have "real_of_int k < 2 ^ 53" using tk tb by simp
          then have "real_of_int k < real_of_int (2 ^ 53)" by simp
          then have k53: "k < 2 ^ 53" by (simp only: of_int_less_iff)
          show False
          proof (cases "of_int k \<le> y")
            case True
            then have "fl (of_int k) \<le> fl y" by (rule fl_mono)
            then show False using a fl_of_int[of k] kpos k53 by (simp add: y_def)
          next
            case False
            have n0: "0 < real n" using tk kpos P0 t_def
              by (metis mult_zero_left of_int_0_less_iff of_nat_0_less_iff neq0_conv of_nat_0 order_less_irrefl)
            have "real n * (P * (1 - 1 / 2 ^ 54)) < real n * c"
              using c_lo n0 by (intro mult_strict_left_mono) auto
            then have "of_int k * (1 - 1 / 2 ^ 54) < y"
              using tk by (simp add: y_def t_def algebra_simps)
            from fl_near_below[OF kpos k53 this] False have "fl y = of_int k" by simp
            then show False using a by (simp add: y_def)
          qed
        qed
      next
        case False
        then have "k * int q + 1 \<le> int (n * p)" using ge by simp
        then have "real_of_int (k * int q + 1) \<le> real (n * p)" by linarith
        then have "real_of_int k * real q + 1 \<le> t * real q" using tq by simp
        then have "(real_of_int k * real q + 1) / real q \<le> t" using pq by (simp add: field_simps)
        then have "real_of_int k + 1 / real q \<le> t" using pq by (simp add: field_simps)
        then show False using lo a q100 by (simp add: y_def)
      qed
    qed
  next
    assume "int (n * p) < k * int q"
    then have "int (n * p) + 1 \<le> k * int q" by simp
    then have "real (n * p) + 1 \<le> real_of_int (k * int q)" by linarith
    then have "t * real q + 1 \<le> real_of_int k * real q" using tq by simp
    then have "(t * real q + 1) / real q \<le> real_of_int k" using pq by (simp add: field_simps)
    then have "t + 1 / real q \<le> real_of_int k" using pq by (simp add: field_simps)
    then show "fl y < of_int k" using up q100 by simp
  qed
  then show ?thesis by (simp add: y_def)
qed

lemma py_int_fl_scale:
  fixes n p q :: nat
  assumes n: "n < 2 ^ 31" and c: "near_frac c p q"
  shows "py_int (fl (real n * c)) = int (n * p div q)"
proof -
  define m where "m = n * p div q"
  have q: "0 < q" using c by (simp add: near_frac_def)
  have c0: "0 \<le> c"
  proof -
    have "0 \<le> (real p / real q) * (1 - 1 / 2 ^ 54)" by simp
    then show ?thesis using c unfolding near_frac_def by linarith
  qed
  then have "0 \<le> fl (real n * c)" by (intro fl_nonneg) simp
  then have pf: "py_int (fl (real n * c)) = \<lfloor>fl (real n * c)\<rfloor>" by (simp add: py_int_def)
  have "m * q \<le> n * p" by (simp add: m_def)
  then have "\<not> int (n * p) < int m * int q" by (metis not_less of_nat_le_iff of_nat_mult)
  then have A: "of_int (int m) \<le> fl (real n * c)"
    using fl_scale_less_iff[OF n c, of "int m"] by simp
  have "n * p < (m + 1) * q" using q unfolding m_def
    by (metis Suc_eq_plus1 dividend_less_div_times mult.commute mult_Suc)
  then have "int (n * p) < (int m + 1) * int q" by (metis of_nat_less_iff of_nat_mult of_nat_add of_nat_1)
  then have B: "fl (real n * c) < of_int (int m + 1)"
    using fl_scale_less_iff[OF n c, of "int m + 1"] by simp
  have "\<lfloor>fl (real n * c)\<rfloor> = int m" using A B by (intro floor_unique) simp_all
  then show ?thesis using pf by (simp add: m_def)
qed

subsection \<open>The decimal literals of the scripts\<close>

text \<open>Each literal with its binary64 value, as written in the source and in lowest terms.\<close>

lemma fl_c15_raw: "fl (15/100) = 5404319552844595 / 36028797018963968"
  by (subst fl_eval[where e="-3"]) (simp_all add: round_even_def Let_def power_int_minus)

lemma fl_c15: "fl (3/20) = 5404319552844595 / 36028797018963968"
  using fl_c15_raw by simp

lemma near_c15: "near_frac (fl (15/100)) 3 20"
  unfolding fl_c15_raw near_frac_def by simp

lemma fl_c85_raw: "fl (85/100) = 7656119366529843 / 9007199254740992"
  by (subst fl_eval[where e="-1"]) (simp_all add: round_even_def Let_def power_int_minus)

lemma fl_c85: "fl (17/20) = 7656119366529843 / 9007199254740992"
  using fl_c85_raw by simp

lemma near_c85: "near_frac (fl (85/100)) 17 20"
  unfolding fl_c85_raw near_frac_def by simp

lemma fl_c18_raw: "fl (18/100) = 3242591731706757 / 18014398509481984"
  by (subst fl_eval[where e="-3"]) (simp_all add: round_even_def Let_def power_int_minus)

lemma fl_c18: "fl (9/50) = 3242591731706757 / 18014398509481984"
  using fl_c18_raw by simp

lemma near_c18: "near_frac (fl (18/100)) 9 50"
  unfolding fl_c18_raw near_frac_def by simp

lemma fl_c08_raw: "fl (8/100) = 5764607523034235 / 72057594037927936"
  by (subst fl_eval[where e="-4"]) (simp_all add: round_even_def Let_def power_int_minus)

lemma fl_c08: "fl (2/25) = 5764607523034235 / 72057594037927936"
  using fl_c08_raw by simp

lemma near_c08: "near_frac (fl (8/100)) 2 25"
  unfolding fl_c08_raw near_frac_def by simp

lemma fl_c05_raw: "fl (5/100) = 3602879701896397 / 72057594037927936"
  by (subst fl_eval[where e="-5"]) (simp_all add: round_even_def Let_def power_int_minus)

lemma fl_c05: "fl (1/20) = 3602879701896397 / 72057594037927936"
  using fl_c05_raw by simp

lemma near_c05: "near_frac (fl (5/100)) 1 20"
  unfolding fl_c05_raw near_frac_def by simp

lemma fl_c95_raw: "fl (95/100) = 4278419646001971 / 4503599627370496"
  by (subst fl_eval[where e="-1"]) (simp_all add: round_even_def Let_def power_int_minus)

lemma fl_c95: "fl (19/20) = 4278419646001971 / 4503599627370496"
  using fl_c95_raw by simp

lemma near_c95: "near_frac (fl (95/100)) 19 20"
  unfolding fl_c95_raw near_frac_def by simp

lemma fl_c20_raw: "fl (20/100) = 3602879701896397 / 18014398509481984"
  by (subst fl_eval[where e="-3"]) (simp_all add: round_even_def Let_def power_int_minus)

lemma fl_c20: "fl (1/5) = 3602879701896397 / 18014398509481984"
  using fl_c20_raw by simp

lemma near_c20: "near_frac (fl (20/100)) 1 5"
  unfolding fl_c20_raw near_frac_def by simp

lemma fl_c02_raw: "fl (2/100) = 5764607523034235 / 288230376151711744"
  by (subst fl_eval[where e="-6"]) (simp_all add: round_even_def Let_def power_int_minus)

lemma fl_c02: "fl (1/50) = 5764607523034235 / 288230376151711744"
  using fl_c02_raw by simp

lemma near_c02: "near_frac (fl (2/100)) 1 50"
  unfolding fl_c02_raw near_frac_def by simp

lemma fl_c06_raw: "fl (6/10) = 5404319552844595 / 9007199254740992"
  by (subst fl_eval[where e="-1"]) (simp_all add: round_even_def Let_def power_int_minus)

lemma fl_c06: "fl (3/5) = 5404319552844595 / 9007199254740992"
  using fl_c06_raw by simp


lemma fl_c14_raw: "fl (14/10) = 3152519739159347 / 2251799813685248"
  by (subst fl_eval[where e="0"]) (simp_all add: round_even_def Let_def power_int_minus)

lemma fl_c14: "fl (7/5) = 3152519739159347 / 2251799813685248"
  using fl_c14_raw by simp

lemma fl_c11_raw: "fl (11/10) = 2476979795053773 / 2251799813685248"
  by (subst fl_eval[where e="0"]) (simp_all add: round_even_def Let_def power_int_minus)


lemma fl_c18d_raw: "fl (18/10) = 8106479329266893 / 4503599627370496"
  by (subst fl_eval[where e="0"]) (simp_all add: round_even_def Let_def power_int_minus)

lemma fl_c18d: "fl (9/5) = 8106479329266893 / 4503599627370496"
  using fl_c18d_raw by simp

lemma fl_c12_raw: "fl (12/10) = 5404319552844595 / 4503599627370496"
  by (subst fl_eval[where e="0"]) (simp_all add: round_even_def Let_def power_int_minus)

lemma fl_c12: "fl (6/5) = 5404319552844595 / 4503599627370496"
  using fl_c12_raw by simp

lemma fl_c85s_num: "fl (30624477466119373 / 36028797018963968) = 7656119366529843 / 9007199254740992"
  by (subst fl_eval[where e="-1"]) (simp_all add: round_even_def Let_def power_int_minus)

lemma fl_c85s_raw: "fl (1 - fl (15/100)) = 7656119366529843 / 9007199254740992"
  unfolding fl_c15_raw using fl_c85s_num by simp

lemma fl_c85s: "fl (1 - fl (3/20)) = 7656119366529843 / 9007199254740992"
  using fl_c85s_raw by simp

lemma near_c85s: "near_frac (fl (1 - fl (15/100))) 17 20"
  unfolding fl_c85s_raw near_frac_def by simp

lemma fl_c82s_num: "fl (14771806777775227 / 18014398509481984) = 3692951694443807 / 4503599627370496"
  by (subst fl_eval[where e="-1"]) (simp_all add: round_even_def Let_def power_int_minus)

lemma fl_c82s_raw: "fl (1 - fl (18/100)) = 3692951694443807 / 4503599627370496"
  unfolding fl_c18_raw using fl_c82s_num by simp

lemma fl_c82s: "fl (1 - fl (9/50)) = 3692951694443807 / 4503599627370496"
  using fl_c82s_raw by simp

lemma near_c82s: "near_frac (fl (1 - fl (18/100))) 41 50"
  unfolding fl_c82s_raw near_frac_def by simp

subsection \<open>Truncation and comparison of rounded quotients\<close>

lemma py_int_minus: "py_int (- x) = - py_int x"
  by (auto simp: py_int_def ceiling_def)

lemma of_int_le_fl: "\<bar>k\<bar> < 2 ^ 53 \<Longrightarrow> of_int k \<le> y \<Longrightarrow> of_int k \<le> fl y"
  using fl_mono[of "of_int k" y] fl_of_int[of k] by simp

lemma fl_le_of_int: "\<bar>k\<bar> < 2 ^ 53 \<Longrightarrow> y \<le> of_int k \<Longrightarrow> fl y \<le> of_int k"
  using fl_mono[of y "of_int k"] fl_of_int[of k] by simp

lemma py_int_percent_nonneg:
  fixes k :: int
  assumes "0 \<le> k" "k < 2 ^ 53"
  shows "py_int (fl (of_int k / 100)) = k div 100"
proof -
  define y where "y = real_of_int k / 100"
  define m where "m = k div 100"
  have y0: "0 \<le> y" using assms by (simp add: y_def)
  have m0: "0 \<le> m" using assms by (simp add: m_def pos_imp_zdiv_nonneg_iff)
  have km: "100 * m \<le> k" "k \<le> 100 * m + 99" unfolding m_def by presburger+
  then have "m \<le> k" using m0 by linarith
  then have m53: "\<bar>m\<bar> < 2 ^ 53" using assms m0 by simp
  from km have "real_of_int (100 * m) \<le> of_int k" "real_of_int k \<le> of_int (100 * m + 99)"
    by (simp_all only: of_int_le_iff)
  then have ym: "of_int m \<le> y" "y \<le> of_int m + 99 / 100" by (simp_all add: y_def)
  have A: "of_int m \<le> fl y" using of_int_le_fl[OF m53 ym(1)] .
  have "real_of_int k < real_of_int (2 ^ 53)" using assms(2) by (simp only: of_int_less_iff)
  then have "y < 2 ^ 53 / 100" by (simp add: y_def)
  then have "y / 2 ^ 53 < 1 / 100" by simp
  then have B: "fl y < of_int m + 1" using fl_upper[OF y0] ym(2) by linarith
  have "\<lfloor>fl y\<rfloor> = m" using A B by (intro floor_unique) simp_all
  moreover have "0 \<le> fl y" using y0 by (rule fl_nonneg)
  ultimately show ?thesis by (simp add: py_int_def y_def m_def)
qed

lemma py_int_percent_neg:
  fixes k :: int
  assumes "k \<le> 0" "- (2 ^ 53) < k"
  shows "py_int (fl (of_int k / 100)) = - ((- k) div 100)"
proof -
  have "py_int (fl (of_int (- k) / 100)) = (- k) div 100"
    using assms by (intro py_int_percent_nonneg) auto
  then show ?thesis by (simp add: fl_minus py_int_minus)
qed

lemma py_int_half_nonneg: "0 \<le> k \<Longrightarrow> py_int (of_int k / 2) = k div 2"
  unfolding py_int_def by (simp add: floor_divide_of_int_eq[of k 2, simplified])

lemma fl_ratio_less_iff:
  fixes a b :: int and p q :: nat
  assumes b: "0 < b" "b < 2 ^ 31" and pq: "0 < p" "p \<le> 100" "0 < q" "q \<le> 100"
  shows "fl (of_int a / of_int b) < fl (real p / real q) \<longleftrightarrow> a * int q < int p * b"
proof -
  define P where "P = real p / real q"
  define x where "x = real_of_int a / real_of_int b"
  define d where "d = 1 / (real q * real_of_int b)"
  have P0: "0 < P" using pq by (simp add: P_def)
  have "real p / real q \<le> real p" using pq by (simp add: field_simps mult_le_cancel_left1)
  then have P100: "P \<le> 100" using pq by (simp add: P_def)
  have br: "0 < real_of_int b" "real_of_int b < 2 ^ 31"
    using b by (simp, metis of_int_less_iff of_int_numeral of_int_power)
  have "real q * real_of_int b < 100 * 2 ^ 31"
    using pq br by (intro mult_le_less_imp_less) auto
  moreover have qb: "0 < real q * real_of_int b" using pq br by simp
  ultimately have d: "1 / (100 * 2 ^ 31) < d" unfolding d_def
    by (intro divide_strict_left_mono) auto
  have flP: "P - P / 2 ^ 53 \<le> fl P" using P0 by (intro fl_lower) simp
  have "fl x < fl P \<longleftrightarrow> a * int q < int p * b"
  proof
    assume a1: "fl x < fl P"
    show "a * int q < int p * b"
    proof (rule ccontr)
      assume "\<not> a * int q < int p * b"
      then have "int p * b \<le> a * int q" by simp
      then have "real_of_int (int p * b) \<le> real_of_int (a * int q)" by (simp only: of_int_le_iff)
      then have "real p * real_of_int b \<le> real_of_int a * real q" by simp
      then have "P \<le> x" using pq br by (simp add: P_def x_def field_simps)
      then have "fl P \<le> fl x" by (rule fl_mono)
      then show False using a1 by simp
    qed
  next
    assume "a * int q < int p * b"
    then have "a * int q + 1 \<le> int p * b" by simp
    then have "real_of_int (a * int q + 1) \<le> real_of_int (int p * b)" by (simp only: of_int_le_iff)
    then have "real_of_int a * real q + 1 \<le> real p * real_of_int b" by simp
    then have "(real_of_int a * real q + 1) / (real q * real_of_int b) \<le> real p * real_of_int b / (real q * real_of_int b)"
      using qb by (intro divide_right_mono) auto
    then have xd: "x + d \<le> P" using pq br by (simp add: x_def d_def P_def field_simps)
    show "fl x < fl P"
    proof (cases "0 \<le> x")
      case True
      have "fl x \<le> x + x / 2 ^ 53" using True by (rule fl_upper)
      then show ?thesis using xd d flP P100 P0 by simp
    next
      case False
      then have "fl x \<le> 0" by (intro fl_nonpos) simp
      moreover have "0 < fl P" using flP P0 by simp
      ultimately show ?thesis by simp
    qed
  qed
  then show ?thesis by (simp add: x_def P_def)
qed

lemma fl_ratio_greater_iff:
  fixes a b :: int and p q :: nat
  assumes b: "0 < b" "b < 2 ^ 31" and pq: "0 < p" "p \<le> 100" "0 < q" "q \<le> 100"
  shows "fl (real p / real q) < fl (of_int a / of_int b) \<longleftrightarrow> int p * b < a * int q"
proof -
  define P where "P = real p / real q"
  define x where "x = real_of_int a / real_of_int b"
  define d where "d = 1 / (real q * real_of_int b)"
  have P0: "0 < P" using pq by (simp add: P_def)
  have "real p / real q \<le> real p" using pq by (simp add: field_simps mult_le_cancel_left1)
  then have P100: "P \<le> 100" using pq by (simp add: P_def)
  have br: "0 < real_of_int b" "real_of_int b < 2 ^ 31"
    using b by (simp, metis of_int_less_iff of_int_numeral of_int_power)
  have "real q * real_of_int b < 100 * 2 ^ 31"
    using pq br by (intro mult_le_less_imp_less) auto
  moreover have qb: "0 < real q * real_of_int b" using pq br by simp
  ultimately have d: "1 / (100 * 2 ^ 31) < d" unfolding d_def
    by (intro divide_strict_left_mono) auto
  have flP: "fl P \<le> P + P / 2 ^ 53" using P0 by (intro fl_upper) simp
  have "fl P < fl x \<longleftrightarrow> int p * b < a * int q"
  proof
    assume a1: "fl P < fl x"
    show "int p * b < a * int q"
    proof (rule ccontr)
      assume "\<not> int p * b < a * int q"
      then have "a * int q \<le> int p * b" by simp
      then have "real_of_int (a * int q) \<le> real_of_int (int p * b)" by (simp only: of_int_le_iff)
      then have "real_of_int a * real q \<le> real p * real_of_int b" by simp
      then have "x \<le> P" using pq br by (simp add: P_def x_def field_simps)
      then have "fl x \<le> fl P" by (rule fl_mono)
      then show False using a1 by simp
    qed
  next
    assume "int p * b < a * int q"
    then have "int p * b + 1 \<le> a * int q" by simp
    then have "real_of_int (int p * b + 1) \<le> real_of_int (a * int q)" by (simp only: of_int_le_iff)
    then have "real p * real_of_int b + 1 \<le> real_of_int a * real q" by simp
    then have "(real p * real_of_int b + 1) / (real q * real_of_int b) \<le> real_of_int a * real q / (real q * real_of_int b)"
      using qb by (intro divide_right_mono) auto
    then have xd: "P + d \<le> x" using pq br by (simp add: x_def d_def P_def field_simps)
    then have x0: "0 \<le> x" using P0 d by simp
    have "x - x / 2 ^ 53 \<le> fl x" using x0 by (rule fl_lower)
    then show "fl P < fl x" using xd d flP P100 P0 by simp
  qed
  then show ?thesis by (simp add: x_def P_def)
qed

section \<open>Index arrays\<close>

lemma set_np_where: "set (np_where bs) = {i. i < length bs \<and> bs ! i}"
  by (auto simp: np_where_def)

lemma sorted_np_where: "sorted (np_where bs)"
  unfolding np_where_def by (rule sorted_wrt_filter) simp

lemma sorted_hd_le:
  assumes "sorted (xs::nat list)" "x \<in> set xs"
  shows "hd xs \<le> x"
  using assms by (cases xs) auto

lemma sorted_le_last:
  assumes "sorted (xs::nat list)" "x \<in> set xs"
  shows "x \<le> last xs"
  using assms by (induction xs) auto

lemma np_where_hd:
  assumes "np_where bs \<noteq> []"
  shows "hd (np_where bs) < length bs" "bs ! hd (np_where bs)"
proof -
  have "hd (np_where bs) \<in> set (np_where bs)" using assms by simp
  then show "hd (np_where bs) < length bs" "bs ! hd (np_where bs)"
    by (simp_all add: set_np_where)
qed

lemma np_where_last:
  assumes "np_where bs \<noteq> []"
  shows "last (np_where bs) < length bs" "bs ! last (np_where bs)"
proof -
  have "last (np_where bs) \<in> set (np_where bs)" using assms by simp
  then show "last (np_where bs) < length bs" "bs ! last (np_where bs)"
    by (simp_all add: set_np_where)
qed

lemma np_where_between:
  assumes "i < length bs" "bs ! i"
  shows "np_where bs \<noteq> []" "hd (np_where bs) \<le> i" "i \<le> last (np_where bs)"
proof -
  have m: "i \<in> set (np_where bs)" using assms by (simp add: set_np_where)
  then show "np_where bs \<noteq> []" by auto
  show "hd (np_where bs) \<le> i" using sorted_hd_le[OF sorted_np_where m] .
  show "i \<le> last (np_where bs)" using sorted_le_last[OF sorted_np_where m] .
qed

lemma np_where_hd_le_last:
  assumes "np_where bs \<noteq> []"
  shows "hd (np_where bs) \<le> last (np_where bs)"
  using np_where_between(3)[OF np_where_hd[OF assms]] .

section \<open>The centre crops\<close>

lemma center_crop_15:
  assumes "width img < 2 ^ 31" "height img < 2 ^ 31"
  shows "center_crop (15/100) img =
           (int (width img * 3 div 20), int (height img * 3 div 20),
            int (width img * 17 div 20), int (height img * 17 div 20))"
  unfolding center_crop_def Let_def
  by (simp only: py_int_fl_scale[OF assms(1) near_c15] py_int_fl_scale[OF assms(2) near_c15]
      py_int_fl_scale[OF assms(1) near_c85s] py_int_fl_scale[OF assms(2) near_c85s])

lemma center_crop_18:
  assumes "width img < 2 ^ 31" "height img < 2 ^ 31"
  shows "center_crop (18/100) img =
           (int (width img * 9 div 50), int (height img * 9 div 50),
            int (width img * 41 div 50), int (height img * 41 div 50))"
  unfolding center_crop_def Let_def
  by (simp only: py_int_fl_scale[OF assms(1) near_c18] py_int_fl_scale[OF assms(2) near_c18]
      py_int_fl_scale[OF assms(1) near_c82s] py_int_fl_scale[OF assms(2) near_c82s])

lemma py_int_gap:
  assumes "0 \<le> x" "x + 1 \<le> y"
  shows "py_int x < py_int y"
proof -
  have "\<lfloor>x\<rfloor> + 1 \<le> \<lfloor>y\<rfloor>"
    using assms(2) by (metis floor_mono floor_add_int of_int_1)
  then show ?thesis using assms by (simp add: py_int_def)
qed

lemma scaled_gap:
  fixes n :: nat
  assumes n: "2 \<le> n" and a: "0 \<le> a" "a \<le> 1 / 5" and b: "4 / 5 \<le> b"
  shows "py_int (fl (real n * a)) < py_int (fl (real n * b))"
proof -
  define N where "N = real n"
  define A where "A = N * a"
  define B where "B = N * b"
  have n2: "2 \<le> N" using n by (simp add: N_def)
  have na: "A \<le> N * (1 / 5)" unfolding A_def using a n2 by (intro mult_left_mono) auto
  have nb: "N * (4 / 5) \<le> B" unfolding B_def using b n2 by (intro mult_left_mono) auto
  have a0: "0 \<le> A" using a n2 by (simp add: A_def)
  have b0: "0 \<le> B" using nb n2 by simp
  have u: "fl A \<le> A + A / 2 ^ 53" using a0 by (rule fl_upper)
  have l: "B - B / 2 ^ 53 \<le> fl B" using b0 by (rule fl_lower)
  have "fl A + 1 \<le> fl B" using u l na nb n2 by simp
  moreover have "0 \<le> fl A" using a0 by (rule fl_nonneg)
  ultimately have "py_int (fl A) < py_int (fl B)" by (rule py_int_gap[rotated])
  then show ?thesis by (simp add: A_def B_def N_def)
qed

lemma center_crop_nondegenerate:
  assumes "2 \<le> width img" "2 \<le> height img" "0 \<le> fl m" "fl m \<le> 1 / 5" "4 / 5 \<le> fl (1 - fl m)"
  shows "nondegenerate (center_crop m img)"
  unfolding center_crop_def Let_def nondegenerate_def
  using scaled_gap[OF assms(1) assms(3,4,5)] scaled_gap[OF assms(2) assms(3,4,5)] by simp

subsection \<open>The fallback branch of each script\<close>

lemma find_dark_rectangle_fallback:
  assumes "dark_region resize gray = None"
  shows "find_dark_rectangle resize gray mp = center_crop (15/100) gray"
  using assms unfolding find_dark_rectangle_def dark_region_def
  by (simp split: prod.splits)

lemma find_card_by_edges_fallback:
  assumes "edge_region resize find_edges img = Inr None"
  shows "find_card_by_edges resize find_edges img mp = Inr (fallback_center_crop img)"
  using assms unfolding find_card_by_edges_def edge_region_def
  by (simp split: prod.splits sum.splits option.splits)

lemma find_card_boundaries_none:
  "find_card_boundaries gray padding = None \<longleftrightarrow> content_region gray = None"
  unfolding find_card_boundaries_def content_region_def
  by (simp split: option.splits prod.splits)

lemma crop_card_fallback:
  assumes "content_region gray = None" "width gray < 2 ^ 31" "height gray < 2 ^ 31"
  shows "crop_card gray padding =
           (int (width gray * 3 div 20), int (height gray * 1 div 20),
            int (width gray * 17 div 20), int (height gray * 19 div 20))"
proof -
  have "find_card_boundaries gray padding = None"
    using assms(1) by (simp only: find_card_boundaries_none)
  then show ?thesis
    unfolding crop_card_def
    by (simp only: option.case py_int_fl_scale[OF assms(2) near_c15]
        py_int_fl_scale[OF assms(3) near_c05] py_int_fl_scale[OF assms(2) near_c85]
        py_int_fl_scale[OF assms(3) near_c95])
qed

lemma contour_fallback_exact:
  assumes "width wk < 2 ^ 31" "height wk < 2 ^ 31"
  shows "contour_fallback wk =
           (int (width wk * 1 div 5), int (height wk * 3 div 20),
            int (width wk) - int (width wk * 1 div 5), int (height wk) - int (height wk * 3 div 20))"
  unfolding contour_fallback_def Let_def
  by (simp only: py_int_fl_scale[OF assms(1) near_c20] py_int_fl_scale[OF assms(2) near_c15])

lemma crop_card_smart_fallback:
  assumes "contour_region resize find_edges img = Inr None"
  shows "crop_card_smart resize find_edges img =
           Inr (scale_back (snd (downscale_contour resize img))
                  (contour_fallback (fst (downscale_contour resize img))))"
  using assms unfolding crop_card_smart_def find_card_contour_def contour_region_def
  by (simp split: prod.splits sum.splits option.splits)

lemma div_bounds:
  fixes n q :: nat
  assumes "0 < q"
  shows "int q * int (n div q) \<le> int n" "int n < int q * int (n div q) + int q"
proof -
  have "n = q * (n div q) + n mod q" by simp
  moreover have "n mod q < q" using assms by simp
  ultimately have "q * (n div q) \<le> n" "n < q * (n div q) + q"
    by (metis le_add1, metis add_less_cancel_left)
  then show "int q * int (n div q) \<le> int n" "int n < int q * int (n div q) + int q"
    by (metis of_nat_le_iff of_nat_mult, metis of_nat_less_iff of_nat_mult of_nat_add)
qed

lemma margins_in_band:
  fixes n :: nat
  shows "margin_in_band n (int (n * 3 div 20))"
    and "margin_in_band n (int n - int (n * 17 div 20))"
    and "margin_in_band n (int (n * 9 div 50))"
    and "margin_in_band n (int n - int (n * 41 div 50))"
proof -
  show "margin_in_band n (int (n * 3 div 20))"
    using div_bounds[of 20 "n * 3"] unfolding margin_in_band_def by simp
  show "margin_in_band n (int n - int (n * 17 div 20))"
    using div_bounds[of 20 "n * 17"] unfolding margin_in_band_def by simp
  show "margin_in_band n (int (n * 9 div 50))"
    using div_bounds[of 50 "n * 9"] unfolding margin_in_band_def by simp
  show "margin_in_band n (int n - int (n * 41 div 50))"
    using div_bounds[of 50 "n * 41"] unfolding margin_in_band_def by simp
qed

lemma center_crop_15_in_band:
  assumes "width img < 2 ^ 31" "height img < 2 ^ 31"
  shows "fallback_in_band img (center_crop (15/100) img)"
  unfolding center_crop_15[OF assms] fallback_in_band_def prod.case
  by (intro conjI margins_in_band)

lemma center_crop_18_in_band:
  assumes "width img < 2 ^ 31" "height img < 2 ^ 31"
  shows "fallback_in_band img (center_crop (18/100) img)"
  unfolding center_crop_18[OF assms] fallback_in_band_def prod.case
  by (intro conjI margins_in_band)

section \<open>The steps in integer arithmetic\<close>

lemma np_where_map: "np_where (map f xs) = filter (\<lambda>i. f (xs ! i)) [0..<length xs]"
  unfolding np_where_def by (rule filter_cong) simp_all

lemma np_where_map_upt:
  "np_where (map f (map g [0..<n])) = filter (\<lambda>j. f (g j)) [0..<n]"
  unfolding np_where_def by (rule filter_cong) simp_all

lemma scaled_floor_less:
  fixes n p q c :: nat
  assumes "n < 2 ^ 31" "near_frac x p q"
  shows "fl (real n * x) < real c \<longleftrightarrow> n * p < q * c"
proof -
  have "fl (real n * x) < of_int (int c) \<longleftrightarrow> int (n * p) < int c * int q"
    by (rule fl_scale_less_iff[OF assms])
  also have "int c * int q = int (q * c)" by simp
  also have "int (n * p) < int (q * c) \<longleftrightarrow> n * p < q * c" by (rule of_nat_less_iff)
  finally show ?thesis by simp
qed

lemma dense_indices_rows:
  assumes "width work < 2 ^ 31" "near_frac (fl fraction) p q"
  shows "fst (dense_indices fraction work msk) =
           filter (\<lambda>i. width work * p < q * row_count msk i) [0..<length msk]"
proof -
  have "fst (dense_indices fraction work msk) =
          np_where (map (\<lambda>row. fl (real (width work) * fl fraction) < real (length (filter id row))) msk)"
    by (simp add: dense_indices_def Let_def np_sum_axis1_def comp_def)
  also have "\<dots> = filter (\<lambda>i. fl (real (width work) * fl fraction) < real (row_count msk i))
                       [0..<length msk]"
    by (simp only: np_where_map row_count_def)
  finally show ?thesis by (simp only: scaled_floor_less[OF assms])
qed

lemma dense_indices_cols:
  assumes "height work < 2 ^ 31" "near_frac (fl fraction) p q"
  shows "snd (dense_indices fraction work msk) =
           filter (\<lambda>j. height work * p < q * col_count msk j) [0..<width work]"
proof -
  have "snd (dense_indices fraction work msk) =
          np_where (map (\<lambda>c. fl (real (height work) * fl fraction) < real c)
                     (map (\<lambda>j. length (filter (\<lambda>row. row ! j) msk)) [0..<width work]))"
    by (simp add: dense_indices_def Let_def np_sum_axis0_def)
  also have "\<dots> = filter (\<lambda>j. fl (real (height work) * fl fraction) < real (col_count msk j))
                       [0..<width work]"
    by (simp only: np_where_map_upt col_count_def)
  finally show ?thesis by (simp only: scaled_floor_less[OF assms])
qed

lemma list_ex_count: "list_ex P xs \<longleftrightarrow> 0 < length (filter P xs)"
  by (induction xs) auto

lemma any_indices_rows:
  "fst (any_indices work msk) = filter (\<lambda>i. 0 < row_count msk i) [0..<length msk]"
proof -
  have "fst (any_indices work msk) = np_where (map (\<lambda>row. list_ex id row) msk)"
    by (simp add: any_indices_def np_any_axis1_def)
  also have "\<dots> = filter (\<lambda>i. list_ex id (msk ! i)) [0..<length msk]"
    by (simp only: np_where_map)
  finally show ?thesis by (simp only: list_ex_count row_count_def)
qed

lemma any_indices_cols:
  "snd (any_indices work msk) = filter (\<lambda>j. 0 < col_count msk j) [0..<width work]"
proof -
  have "snd (any_indices work msk) =
          np_where (map (\<lambda>b. b) (map (\<lambda>j. list_ex (\<lambda>row. row ! j) msk) [0..<width work]))"
    by (simp add: any_indices_def np_any_axis0_def)
  also have "\<dots> = filter (\<lambda>j. list_ex (\<lambda>row. row ! j) msk) [0..<width work]"
    by (simp only: np_where_map_upt)
  finally show ?thesis by (simp only: list_ex_count col_count_def)
qed

lemma py_int_percent:
  assumes "\<bar>k\<bar> < 2 ^ 53"
  shows "py_int (fl (real_of_int k / 100)) = trunc_percent k"
proof (cases "0 \<le> k")
  case True
  then show ?thesis using assms py_int_percent_nonneg[of k] by (simp add: trunc_percent_def)
next
  case False
  then show ?thesis using assms py_int_percent_neg[of k] by (simp add: trunc_percent_def)
qed

lemma wrap64_id: "- (2 ^ 63) \<le> k \<Longrightarrow> k < 2 ^ 63 \<Longrightarrow> wrap64 k = k"
  unfolding wrap64_def by simp

lemma percent_of_exact:
  assumes "\<bar>k * mp\<bar> < 2 ^ 53"
  shows "percent_of kind k mp = trunc_percent (k * mp)"
proof (cases kind)
  case NumpyInt64
  have "wrap64 (k * mp) = k * mp" using assms by (intro wrap64_id) simp_all
  moreover have "fl (real_of_int (k * mp)) = real_of_int (k * mp)" using assms by (rule fl_of_int)
  ultimately show ?thesis
    using py_int_percent[OF assms] by (simp add: percent_of_def NumpyInt64)
next
  case PythonInt
  then show ?thesis using py_int_percent[OF assms] by (simp add: percent_of_def)
qed

lemma add_margin_exact:
  assumes "\<bar>(b - t) * mp\<bar> < 2 ^ 53" "\<bar>(r - l) * mp\<bar> < 2 ^ 53"
  shows "add_margin work mp (kind, l, t, r, b) =
           (max 0 (l - trunc_percent ((r - l) * mp)), max 0 (t - trunc_percent ((b - t) * mp)),
            min (int (width work)) (r + trunc_percent ((r - l) * mp)),
            min (int (height work)) (b + trunc_percent ((b - t) * mp)))"
  unfolding add_margin_def Let_def
  by (simp only: prod.case percent_of_exact[OF assms(1)] percent_of_exact[OF assms(2)])

lemma scale_back_one:
  assumes "\<bar>l\<bar> < 2 ^ 53" "\<bar>t\<bar> < 2 ^ 53" "\<bar>r\<bar> < 2 ^ 53" "\<bar>b\<bar> < 2 ^ 53"
  shows "scale_back 1 (l, t, r, b) = (l, t, r, b)"
  using assms by (simp add: scale_back_def fl_of_int)

lemma fl_c11_pos: "0 < fl (11/10)"
  unfolding fl_c11_raw by simp

lemma fl_c12_pos: "0 < fl (12/10)"
  unfolding fl_c12_raw by simp

lemma off_band_11_18:
  assumes "r - l < 2 ^ 31"
  shows "aspect (l, t, r, b) < fl (11/10) \<or> fl (18/10) < aspect (l, t, r, b) \<longleftrightarrow>
           r - l \<le> 0 \<or> 10 * (b - t) < 11 * (r - l) \<or> 18 * (r - l) < 10 * (b - t)"
proof (cases "0 < r - l")
  case True
  have a: "fl (real_of_int (b - t) / real_of_int (r - l)) < fl (real 11 / real 10) \<longleftrightarrow>
             (b - t) * int 10 < int 11 * (r - l)"
    using True assms by (intro fl_ratio_less_iff) auto
  have c: "fl (real 18 / real 10) < fl (real_of_int (b - t) / real_of_int (r - l)) \<longleftrightarrow>
             int 18 * (r - l) < (b - t) * int 10"
    using True assms by (intro fl_ratio_greater_iff) auto
  have e: "fl (11/10) = fl (real 11 / real 10)" "fl (18/10) = fl (real 18 / real 10)" by simp_all
  show ?thesis
    unfolding aspect_def prod.case e using True a c by (simp add: mult.commute)
next
  case False
  then show ?thesis using fl_c11_pos by (simp add: aspect_def)
qed

lemma off_band_12_20:
  assumes "r - l < 2 ^ 31"
  shows "aspect (l, t, r, b) < fl (12/10) \<or> 2 < aspect (l, t, r, b) \<longleftrightarrow>
           r - l \<le> 0 \<or> 10 * (b - t) < 12 * (r - l) \<or> 2 * (r - l) < b - t"
proof (cases "0 < r - l")
  case True
  have a: "fl (real_of_int (b - t) / real_of_int (r - l)) < fl (real 12 / real 10) \<longleftrightarrow>
             (b - t) * int 10 < int 12 * (r - l)"
    using True assms by (intro fl_ratio_less_iff) auto
  have c: "fl (real 2 / real 1) < fl (real_of_int (b - t) / real_of_int (r - l)) \<longleftrightarrow>
             int 2 * (r - l) < (b - t) * int 1"
    using True assms by (intro fl_ratio_greater_iff) auto
  have "fl (real_of_int 2) = real_of_int 2" by (rule fl_of_int) simp
  then have e2: "fl (real 2 / real 1) = 2" by simp
  have e: "fl (12/10) = fl (real 12 / real 10)" by simp
  show ?thesis
    unfolding aspect_def prod.case e using True a c e2 by (simp add: mult.commute)
next
  case False
  then show ?thesis using fl_c12_pos by (simp add: aspect_def)
qed

subsection \<open>Recentring\<close>

lemma fl_sub_half:
  assumes "\<bar>a\<bar> < 2 ^ 51" "\<bar>k\<bar> < 2 ^ 51"
  shows "fl (real_of_int a - fl (real_of_int k / 2)) = real_of_int a - real_of_int k / 2"
proof -
  have k: "fl (real_of_int k / 2) = real_of_int k / 2" using assms(2) by (intro fl_half) simp
  have e: "real_of_int a - real_of_int k / 2 = real_of_int (2 * a - k) / 2" by simp
  have "fl (real_of_int (2 * a - k) / 2) = real_of_int (2 * a - k) / 2"
    using assms by (intro fl_half) simp
  then have "fl (real_of_int a - real_of_int k / 2) = real_of_int a - real_of_int k / 2"
    by (simp only: e)
  then show ?thesis by (simp only: k)
qed

lemma fl_add_half:
  assumes "\<bar>a\<bar> < 2 ^ 51" "\<bar>k\<bar> < 2 ^ 51"
  shows "fl (real_of_int a + fl (real_of_int k / 2)) = real_of_int a + real_of_int k / 2"
proof -
  have k: "fl (real_of_int k / 2) = real_of_int k / 2" using assms(2) by (intro fl_half) simp
  have e: "real_of_int a + real_of_int k / 2 = real_of_int (2 * a + k) / 2" by simp
  have "fl (real_of_int (2 * a + k) / 2) = real_of_int (2 * a + k) / 2"
    using assms by (intro fl_half) simp
  then have "fl (real_of_int a + real_of_int k / 2) = real_of_int a + real_of_int k / 2"
    by (simp only: e)
  then show ?thesis by (simp only: k)
qed

lemma fl_c14_bounds: "0 < fl (14/10)" "fl (14/10) < 7 / 5" "7 / 5 - 7 / 5 / 2 ^ 53 < fl (14/10)"
  unfolding fl_c14_raw by simp_all

lemma card_height_abs:
  assumes "\<bar>w\<bar> < 2 ^ 32"
  shows "\<bar>py_int (fl (real_of_int w * fl (14/10)))\<bar> < 2 ^ 34"
proof -
  define y where "y = real_of_int w * fl (14/10)"
  have wr: "\<bar>real_of_int w\<bar> < 2 ^ 32"
    using assms by (metis of_int_abs of_int_less_iff of_int_numeral of_int_power)
  have "\<bar>y\<bar> = \<bar>real_of_int w\<bar> * fl (14/10)" using fl_c14_bounds(1) by (simp add: y_def abs_mult)
  also have "\<dots> \<le> 2 ^ 32 * (7 / 5)"
    using wr fl_c14_bounds by (intro mult_mono) auto
  finally have yb: "\<bar>y\<bar> \<le> 2 ^ 33" by simp
  have k33: "\<bar>- (2 ^ 33) :: int\<bar> < 2 ^ 53" "\<bar>2 ^ 33 :: int\<bar> < 2 ^ 53" by simp_all
  have yy: "real_of_int (- (2 ^ 33)) \<le> y" "y \<le> real_of_int (2 ^ 33)" using yb by simp_all
  have "real_of_int (- (2 ^ 33)) \<le> fl y" "fl y \<le> real_of_int (2 ^ 33)"
    using of_int_le_fl[OF k33(1) yy(1)] fl_le_of_int[OF k33(2) yy(2)] by simp_all
  then have "py_int (real_of_int (- (2 ^ 33))) \<le> py_int (fl y)"
    "py_int (fl y) \<le> py_int (real_of_int (2 ^ 33))"
    by (auto intro: py_int_mono)
  then have "- (2 ^ 33) \<le> py_int (fl y)" "py_int (fl y) \<le> 2 ^ 33"
    by (simp_all only: py_int_of_int)
  then show ?thesis by (simp add: y_def)
qed

lemma recenter_exact:
  assumes "\<bar>l\<bar> < 2 ^ 31" "\<bar>r\<bar> < 2 ^ 31" "\<bar>t\<bar> < 2 ^ 31" "\<bar>b\<bar> < 2 ^ 31"
  shows "recenter (l, t, r, b) =
           (let h = py_int (fl (real_of_int (r - l) * fl (14/10)))
            in (py_int (real_of_int ((l + r) div 2) - real_of_int (r - l) / 2),
                py_int (real_of_int ((t + b) div 2) - real_of_int h / 2),
                py_int (real_of_int ((l + r) div 2) + real_of_int (r - l) / 2),
                py_int (real_of_int ((t + b) div 2) + real_of_int h / 2)))"
proof -
  define h where "h = py_int (fl (real_of_int (r - l) * fl (14/10)))"
  have w: "\<bar>r - l\<bar> < 2 ^ 32" using assms by simp
  have h: "\<bar>h\<bar> < 2 ^ 51" using card_height_abs[OF w] by (simp add: h_def)
  have w': "\<bar>r - l\<bar> < 2 ^ 51" using w by simp
  have cx: "\<bar>(l + r) div 2\<bar> < 2 ^ 51" using assms by (simp add: abs_less_iff) linarith
  have cy: "\<bar>(t + b) div 2\<bar> < 2 ^ 51" using assms by (simp add: abs_less_iff) linarith
  have b53: "\<bar>r - l\<bar> < 2 ^ 53" "\<bar>(l + r) div 2\<bar> < 2 ^ 53" "\<bar>(t + b) div 2\<bar> < 2 ^ 53"
    using w' cx cy by simp_all
  have c: "fl (real_of_int (r - l)) = real_of_int (r - l)"
    "fl (real_of_int ((l + r) div 2)) = real_of_int ((l + r) div 2)"
    "fl (real_of_int ((t + b) div 2)) = real_of_int ((t + b) div 2)"
    by (rule fl_of_int[OF b53(1)], rule fl_of_int[OF b53(2)], rule fl_of_int[OF b53(3)])
  show ?thesis
    unfolding recenter_def Let_def prod.case c h_def[symmetric]
    by (simp only: fl_sub_half[OF cx w'] fl_add_half[OF cx w'] fl_sub_half[OF cy h]
        fl_add_half[OF cy h])
qed


section \<open>Uniform images\<close>

subsection \<open>Uniform arrays\<close>

lemma uniform_concat:
  assumes "\<forall>row\<in>set arr. \<forall>p\<in>set row. p = c"
  shows "concat arr = replicate (length (concat arr)) c"
proof -
  have "\<forall>p\<in>set (concat arr). p = c" using assms by auto
  then show ?thesis by (metis replicate_length_same)
qed

lemma uniform_mean:
  assumes "\<forall>row\<in>set arr. \<forall>p\<in>set row. p = c" "concat arr \<noteq> []"
  shows "np_mean arr = real c"
proof -
  define n where "n = length (concat arr)"
  have n: "0 < n" using assms(2) by (simp add: n_def)
  have "concat arr = replicate n c" using uniform_concat[OF assms(1)] by (simp add: n_def)
  then have "np_mean arr = real (sum_list (replicate n c)) / real n"
    by (simp add: np_mean_def n_def)
  then show ?thesis using n by (simp add: sum_list_replicate)
qed

lemma uniform_std:
  assumes "\<forall>row\<in>set arr. \<forall>p\<in>set row. p = c"
  shows "np_std arr = 0"
proof (cases "concat arr = []")
  case True
  then show ?thesis by (simp add: np_std_def)
next
  case False
  have m: "np_mean arr = real c" using uniform_mean[OF assms False] .
  have "\<forall>p\<in>set (concat arr). (real p - np_mean arr)\<^sup>2 = 0" using assms m by auto
  then have "map (\<lambda>p. (real p - np_mean arr)\<^sup>2) (concat arr) = map (\<lambda>p. 0) (concat arr)"
    by (intro map_cong) auto
  then have "sum_list (map (\<lambda>p. (real p - np_mean arr)\<^sup>2) (concat arr)) =
             sum_list (map (\<lambda>p. 0::real) (concat arr))"
    by (rule arg_cong)
  then have "sum_list (map (\<lambda>p. (real p - np_mean arr)\<^sup>2) (concat arr)) = 0" by simp
  then show ?thesis by (simp only: np_std_def) simp
qed

lemma uniform_dark_mask:
  assumes "\<forall>row\<in>set arr. \<forall>p\<in>set row. p = c"
  shows "dark_mask k arr = map (map (\<lambda>p. False)) arr"
proof -
  have "\<And>row p. row \<in> set arr \<Longrightarrow> p \<in> set row \<Longrightarrow>
          \<not> real p < np_mean arr - np_std arr * k"
  proof -
    fix row p assume rp: "row \<in> set arr" "p \<in> set row"
    then have "p \<in> set (concat arr)" by auto
    then have ne: "concat arr \<noteq> []" by (cases "concat arr") simp_all
    have "p = c" using assms rp by auto
    then show "\<not> real p < np_mean arr - np_std arr * k"
      using uniform_mean[OF assms ne] uniform_std[OF assms] by simp
  qed
  then show ?thesis unfolding dark_mask_def Let_def
    by (intro map_cong refl) auto
qed

lemma count_all_false [simp]: "length (filter id (map (\<lambda>p. False) row)) = 0"
  by (induction row) auto

lemma row_count_all_false:
  "i < length arr \<Longrightarrow> row_count (map (map (\<lambda>p. False)) arr) i = 0"
  by (simp add: row_count_def)

lemma col_count_bound: "col_count msk j \<le> length msk"
  by (simp add: col_count_def)

lemma any_rows_all_false: "fst (any_indices work (map (map (\<lambda>p. False)) arr)) = []"
  unfolding any_indices_rows by (simp add: row_count_all_false)

lemma dense_rows_all_false:
  assumes "0 \<le> fl fraction"
  shows "fst (dense_indices fraction work (map (map (\<lambda>p. False)) arr)) = []"
proof -
  have "0 \<le> fl (real (width work) * fl fraction)" using assms by (intro fl_nonneg) simp
  then show ?thesis
    by (simp add: dense_indices_def Let_def np_sum_axis1_def np_where_map comp_def)
qed

lemma first_last_no_rows: "fst rc = [] \<Longrightarrow> first_last rc = None"
  by (cases rc) (simp add: first_last_def)

subsection \<open>Percentile of a uniform array\<close>

lemma sort_replicate: "sort (replicate n (c::nat)) = replicate n c"
  by (induction n) (auto simp: insort_is_Cons)

lemma np_percentile_replicate:
  assumes "0 < n" "c \<le> 255"
  shows "np_percentile (replicate n c) q = Inr (real c)"
proof -
  define vi where "vi = fl (real (n - 1) * fl (real q / 100))"
  have "0 \<le> fl (real q / 100)" by (intro fl_nonneg) simp
  then have vi0: "0 \<le> vi" unfolding vi_def by (intro fl_nonneg) simp
  have c: "fl (real c) = real c"
  proof -
    have "fl (real_of_int (int c)) = real_of_int (int c)" using assms(2) by (intro fl_of_int) simp
    then show ?thesis by simp
  qed
  show ?thesis
  proof (cases "real (n - 1) \<le> vi")
    case True
    then show ?thesis
      unfolding np_percentile_def sort_replicate Let_def length_replicate vi_def[symmetric]
      using assms(1) by simp
  next
    case False
    then have "\<lfloor>vi\<rfloor> < int (n - 1)" by (simp add: floor_less_iff)
    moreover have "0 \<le> \<lfloor>vi\<rfloor>" using vi0 by simp
    ultimately have p: "nat \<lfloor>vi\<rfloor> < n - 1" by linarith
    then have a: "replicate n c ! nat \<lfloor>vi\<rfloor> = c" "replicate n c ! (nat \<lfloor>vi\<rfloor> + 1) = c"
      by simp_all
    show ?thesis
      unfolding np_percentile_def sort_replicate Let_def length_replicate vi_def[symmetric]
      using False assms(1) a c by simp
  qed
qed

subsection \<open>What the scripts detect on a uniform working image\<close>

lemma downscale_small:
  "max (width img) (height img) \<le> max_dim \<Longrightarrow> downscale max_dim resize img = (img, 1)"
  by (auto simp: downscale_def max_def split: if_splits)

lemma downscale_contour_small:
  "width img \<le> 1000 \<Longrightarrow> height img \<le> 1000 \<Longrightarrow> downscale_contour resize img = (img, 1)"
  by (simp add: downscale_contour_def)

lemma fl_consts_nonneg: "0 \<le> fl (15/100)" "0 \<le> fl (8/100)"
  unfolding fl_c15_raw fl_c08_raw by simp_all

lemma dark_region_uniform:
  assumes "\<forall>row\<in>set (pixels (fst (downscale 800 resize gray))). \<forall>p\<in>set row. p = c"
  shows "dark_region resize gray = None"
proof -
  obtain gw ratio where d: "downscale 800 resize gray = (gw, ratio)" by fastforce
  have u: "\<forall>row\<in>set (pixels gw). \<forall>p\<in>set row. p = c" using assms d by simp
  have "first_last (dense_indices (15/100) gw (dark_mask (8/10) (pixels gw))) = None"
    unfolding uniform_dark_mask[OF u]
    by (rule first_last_no_rows) (rule dense_rows_all_false[OF fl_consts_nonneg(1)])
  then show ?thesis by (simp add: dark_region_def d)
qed

lemma content_region_uniform:
  assumes "\<forall>row\<in>set (pixels gray). \<forall>p\<in>set row. p = c"
  shows "content_region gray = None"
  unfolding content_region_def uniform_dark_mask[OF assms]
  by (rule first_last_no_rows) (rule any_rows_all_false)

lemma uniform_not_above:
  assumes "\<forall>row\<in>set arr. \<forall>p\<in>set row. p = c"
  shows "map (map (\<lambda>p. real c < real p)) arr = map (map (\<lambda>p. False)) arr"
  using assms by (intro map_cong refl) auto

lemma strong_edges_v2_uniform:
  assumes "\<forall>row\<in>set arr. \<forall>p\<in>set row. p = c" "concat arr \<noteq> []" "0 < c" "c \<le> 255"
  shows "strong_edges_v2 arr = Inr (map (map (\<lambda>p. False)) arr)"
proof -
  define n where "n = length (concat arr)"
  have n: "0 < n" using assms(2) by (simp add: n_def)
  have r: "concat arr = replicate n c" using uniform_concat[OF assms(1)] by (simp add: n_def)
  have f: "filter (\<lambda>p. 0 < p) (concat arr) = replicate n c" using assms(3) by (simp add: r)
  show ?thesis
    unfolding strong_edges_v2_def f np_percentile_replicate[OF n assms(4)]
    by (simp only: sum.case uniform_not_above[OF assms(1)])
qed

lemma strong_edges_v2_zero:
  assumes "\<forall>row\<in>set arr. \<forall>p\<in>set row. p = 0"
  shows "strong_edges_v2 arr = Inl EmptyArrayError"
proof -
  have "\<forall>p\<in>set (concat arr). \<not> 0 < p" using assms by auto
  then have "filter (\<lambda>p. 0 < p) (concat arr) = []" by (simp add: filter_empty_conv)
  then show ?thesis by (simp add: strong_edges_v2_def np_percentile_def)
qed

lemma strong_edges_contour_uniform:
  assumes "\<forall>row\<in>set arr. \<forall>p\<in>set row. p = c" "concat arr \<noteq> []" "c \<le> 255"
  shows "strong_edges_contour arr = Inr (map (map (\<lambda>p. False)) arr)"
proof -
  define n where "n = length (concat arr)"
  have n: "0 < n" using assms(2) by (simp add: n_def)
  have r: "concat arr = replicate n c" using uniform_concat[OF assms(1)] by (simp add: n_def)
  show ?thesis
    unfolding strong_edges_contour_def r np_percentile_replicate[OF n assms(3)]
    by (simp only: sum.case uniform_not_above[OF assms(1)])
qed

lemma edge_region_uniform:
  assumes "\<forall>row\<in>set (pixels (find_edges (fst (downscale 1200 resize img)))). \<forall>p\<in>set row. p = c"
    and "concat (pixels (find_edges (fst (downscale 1200 resize img)))) \<noteq> []" "0 < c" "c \<le> 255"
  shows "edge_region resize find_edges img = Inr None"
proof -
  obtain wk ratio where d: "downscale 1200 resize img = (wk, ratio)" by fastforce
  have s: "strong_edges_v2 (pixels (find_edges wk)) = Inr (map (map (\<lambda>p. False)) (pixels (find_edges wk)))"
    using assms d by (intro strong_edges_v2_uniform) simp_all
  have "first_last (dense_indices (8/100) wk (map (map (\<lambda>p. False)) (pixels (find_edges wk)))) = None"
    by (rule first_last_no_rows) (rule dense_rows_all_false[OF fl_consts_nonneg(2)])
  then show ?thesis by (simp add: edge_region_def d s)
qed

lemma contour_region_uniform:
  assumes "\<forall>row\<in>set (pixels (find_edges (fst (downscale_contour resize img)))). \<forall>p\<in>set row. p = c"
    and "concat (pixels (find_edges (fst (downscale_contour resize img)))) \<noteq> []" "c \<le> 255"
  shows "contour_region resize find_edges img = Inr None"
proof -
  obtain wk s where d: "downscale_contour resize img = (wk, s)" by fastforce
  have e: "strong_edges_contour (pixels (find_edges wk)) = Inr (map (map (\<lambda>p. False)) (pixels (find_edges wk)))"
    using assms d by (intro strong_edges_contour_uniform) simp_all
  have "first_last (any_indices wk (map (map (\<lambda>p. False)) (pixels (find_edges wk)))) = None"
    by (rule first_last_no_rows) (rule any_rows_all_false)
  then show ?thesis by (simp add: contour_region_def d e)
qed

lemma uniform_image_simps [simp]:
  "width (uniform_image w h c) = w" "height (uniform_image w h c) = h"
  "pixels (uniform_image w h c) = replicate h (replicate w c)"
  by (simp_all add: uniform_image_def)

lemma concat_uniform: "concat (replicate h (replicate w c)) = replicate (h * w) c"
  by (induction h) (simp_all add: replicate_add)

section \<open>Running the brightness script on an example\<close>

subsection \<open>The brightness mask of an image of two levels\<close>

lemma threshold_pos:
  assumes "0 \<le> k" "0 < np_mean arr"
    and "k\<^sup>2 * (sum_list (map (\<lambda>p. (real p - np_mean arr)\<^sup>2) (concat arr)) / real (length (concat arr)))
           < (np_mean arr)\<^sup>2"
  shows "0 < np_mean arr - np_std arr * k"
proof -
  define v where "v = sum_list (map (\<lambda>p. (real p - np_mean arr)\<^sup>2) (concat arr)) / real (length (concat arr))"
  have "sqrt (k\<^sup>2 * v) < np_mean arr"
    using assms(2,3) by (intro real_less_lsqrt) (simp_all add: v_def)
  moreover have "sqrt (k\<^sup>2 * v) = k * sqrt v" using assms(1) by (simp add: real_sqrt_mult)
  ultimately show ?thesis by (simp add: np_std_def v_def mult.commute)
qed

lemma threshold_le_mean:
  assumes "0 \<le> k"
  shows "np_mean arr - np_std arr * k \<le> np_mean arr"
proof -
  have "0 \<le> np_std arr" unfolding np_std_def
    by (intro real_sqrt_ge_zero divide_nonneg_nonneg sum_list_nonneg) auto
  then show ?thesis using assms by simp
qed

lemma dark_mask_two_level:
  assumes "\<forall>row\<in>set arr. \<forall>p\<in>set row. p = 0 \<or> p = 255"
    and "0 < np_mean arr - np_std arr * k" "np_mean arr - np_std arr * k \<le> 255"
  shows "dark_mask k arr = map (map (\<lambda>p. p = 0)) arr"
proof -
  have "\<And>row p. row \<in> set arr \<Longrightarrow> p \<in> set row \<Longrightarrow>
          (real p < np_mean arr - np_std arr * k) = (p = 0)"
  proof -
    fix row p assume "row \<in> set arr" "p \<in> set row"
    then have "p = 0 \<or> p = 255" using assms(1) by blast
    then show "(real p < np_mean arr - np_std arr * k) = (p = 0)"
      using assms(2,3) by auto
  qed
  then show ?thesis unfolding dark_mask_def Let_def
    by (intro map_cong refl) blast
qed

lemma sum_list_map_concat:
  "sum_list (map f (concat xss)) = sum_list (map (\<lambda>xs. sum_list (map f xs)) xss)"
  by (induction xss) auto

lemma sum_list_of_concat: "sum_list (concat xss) = sum_list (map sum_list xss)"
  by (induction xss) auto

lemma length_of_concat: "length (concat xss) = sum_list (map length xss)"
  by (induction xss) auto

lemmas array_sums = sum_list_map_concat sum_list_of_concat length_of_concat sum_list_replicate

lemma card_photo_mask:
  "dark_mask (8/10) (pixels card_photo) = map (map (\<lambda>p. p = 0)) (pixels card_photo)"
proof -
  have m: "np_mean (pixels card_photo) = 1105 / 6"
    by (simp add: card_photo_def np_mean_def array_sums)
  have p: "0 < np_mean (pixels card_photo) - np_std (pixels card_photo) * (8/10)"
    by (rule threshold_pos) (simp_all add: m, simp add: card_photo_def array_sums power2_eq_square)
  have l: "np_mean (pixels card_photo) - np_std (pixels card_photo) * (8/10) \<le> 255"
    using threshold_le_mean[of "8/10" "pixels card_photo"] by (simp add: m)
  show ?thesis
    by (rule dark_mask_two_level[OF _ p l]) (auto simp: card_photo_def)
qed


lemma first_last_split:
  "first_last rc =
     (if fst rc = [] \<or> snd rc = [] then None
      else Some (int (hd (snd rc)), int (hd (fst rc)), int (last (snd rc)), int (last (fst rc))))"
  by (cases rc) (simp add: first_last_def)

lemma card_photo_small: "downscale 800 blank_resize card_photo = (card_photo, 1)"
  by (rule downscale_small) (simp add: card_photo_def)

lemma card_photo_bounds: "width card_photo < 2 ^ 31" "height card_photo < 2 ^ 31"
  by (simp_all add: card_photo_def)

lemma card_photo_rows:
  "fst (dense_indices (15/100) card_photo (dark_mask (8/10) (pixels card_photo))) = [4..<14]"
  unfolding dense_indices_rows[OF card_photo_bounds(1) near_c15] card_photo_mask
  by code_simp

lemma card_photo_cols:
  "snd (dense_indices (15/100) card_photo (dark_mask (8/10) (pixels card_photo))) = [3..<9]"
  unfolding dense_indices_cols[OF card_photo_bounds(2) near_c15] card_photo_mask
  by code_simp

lemma card_photo_region: "dark_region blank_resize card_photo = Some (3, 4, 8, 13)"
  unfolding dark_region_def card_photo_small prod.case first_last_split card_photo_rows
    card_photo_cols
  by (simp add: upt_rec_numeral)


lemma find_dark_rectangle_detected:
  assumes "dark_region resize gray = Some d"
  shows "find_dark_rectangle resize gray mp =
           verify_aspect gray (scale_back (snd (downscale 800 resize gray))
             (add_margin (fst (downscale 800 resize gray)) mp (NumpyInt64, d)))"
  using assms unfolding find_dark_rectangle_def dark_region_def
  by (simp split: prod.splits)

lemma verify_aspect_exact:
  assumes "r - l < 2 ^ 31"
  shows "verify_aspect img (l, t, r, b) =
           (if r - l \<le> 0 \<or> 10 * (b - t) < 11 * (r - l) \<or> 18 * (r - l) < 10 * (b - t)
            then clamp_box img (recenter (l, t, r, b)) else (l, t, r, b))"
  unfolding verify_aspect_def Let_def off_band_11_18[OF assms] ..

lemma adjust_ratio_exact:
  assumes "r - l < 2 ^ 31"
  shows "adjust_ratio (l, t, r, b) =
           (if r - l \<le> 0 \<or> 10 * (b - t) < 11 * (r - l) \<or> 18 * (r - l) < 10 * (b - t)
            then (PythonInt, recenter (l, t, r, b)) else (NumpyInt64, l, t, r, b))"
  unfolding adjust_ratio_def Let_def off_band_11_18[OF assms] ..

lemma card_height_5: "py_int (fl (5 * fl (14/10))) = 7"
  unfolding fl_c14_raw
  by (subst fl_eval[where e=2]) (simp_all add: round_even_def Let_def py_int_def)

lemma card_height_5_n: "py_int (fl (5 * fl (7/5))) = 7"
  using card_height_5 by simp

lemma card_photo_margin_0: "find_dark_rectangle blank_resize card_photo 0 = (3, 4, 8, 13)"
proof -
  have a: "add_margin card_photo 0 (NumpyInt64, 3, 4, 8, 13) = (3, 4, 8, 13)"
    by (subst add_margin_exact) (simp_all add: trunc_percent_def card_photo_def)
  have s: "scale_back 1 (3, 4, 8, 13) = (3, 4, 8, 13)" by (rule scale_back_one) simp_all
  have v: "verify_aspect card_photo (3, 4, 8, 13) = (3, 4, 8, 13)"
    by (subst verify_aspect_exact) simp_all
  show ?thesis
    unfolding find_dark_rectangle_detected[OF card_photo_region] card_photo_small fst_conv
      snd_conv a s v ..
qed

lemma card_photo_margin_12: "find_dark_rectangle blank_resize card_photo 12 = (2, 4, 7, 11)"
proof -
  have a: "add_margin card_photo 12 (NumpyInt64, 3, 4, 8, 13) = (3, 3, 8, 14)"
    by (subst add_margin_exact) (simp_all add: trunc_percent_def card_photo_def)
  have s: "scale_back 1 (3, 3, 8, 14) = (3, 3, 8, 14)" by (rule scale_back_one) simp_all
  have r: "recenter (3, 3, 8, 14) = (2, 4, 7, 11)"
    by (subst recenter_exact) (simp_all add: card_height_5_n, simp add: py_int_def)
  have v: "verify_aspect card_photo (3, 3, 8, 14) = (2, 4, 7, 11)"
    by (subst verify_aspect_exact) (simp_all add: r clamp_box_def card_photo_def)
  show ?thesis
    unfolding find_dark_rectangle_detected[OF card_photo_region] card_photo_small fst_conv
      snd_conv a s v ..
qed

section \<open>Boxes stay inside the image\<close>

subsection \<open>Bounds on the detected box\<close>

lemma first_last_bounds:
  assumes "first_last (np_where xs, np_where ys) = Some (l, t, r, b)"
  shows "0 \<le> l \<and> l \<le> r \<and> r < int (length ys) \<and> 0 \<le> t \<and> t \<le> b \<and> b < int (length xs)"
proof -
  have ne: "np_where xs \<noteq> []" "np_where ys \<noteq> []"
    using assms by (auto simp: first_last_def split: if_splits)
  have e: "l = int (hd (np_where ys))" "t = int (hd (np_where xs))"
    "r = int (last (np_where ys))" "b = int (last (np_where xs))"
    using assms ne by (simp_all add: first_last_def)
  show ?thesis
    unfolding e
    using np_where_hd_le_last[OF ne(1)] np_where_hd_le_last[OF ne(2)]
      np_where_last(1)[OF ne(1)] np_where_last(1)[OF ne(2)] by simp
qed

lemma dense_indices_shape:
  "dense_indices fraction work msk =
     (np_where (map (\<lambda>row. fl (real (width work) * fl fraction) < real (length (filter id row))) msk),
      np_where (map (\<lambda>j. fl (real (height work) * fl fraction) <
                          real (length (filter (\<lambda>row. row ! j) msk))) [0..<width work]))"
  by (simp add: dense_indices_def Let_def np_sum_axis1_def np_sum_axis0_def comp_def)

lemma any_indices_shape:
  "any_indices work msk =
     (np_where (map (\<lambda>row. list_ex id row) msk),
      np_where (map (\<lambda>j. list_ex (\<lambda>row. row ! j) msk) [0..<width work]))"
  by (simp add: any_indices_def np_any_axis1_def np_any_axis0_def)

lemma dense_region_bounds:
  assumes "first_last (dense_indices fraction work msk) = Some (l, t, r, b)"
  shows "0 \<le> l \<and> l \<le> r \<and> r < int (width work) \<and> 0 \<le> t \<and> t \<le> b \<and> b < int (length msk)"
  using first_last_bounds[OF assms[unfolded dense_indices_shape]] by simp

lemma any_region_bounds:
  assumes "first_last (any_indices work msk) = Some (l, t, r, b)"
  shows "0 \<le> l \<and> l \<le> r \<and> r < int (width work) \<and> 0 \<le> t \<and> t \<le> b \<and> b < int (length msk)"
  using first_last_bounds[OF assms[unfolded any_indices_shape]] by simp

subsection \<open>Margin, scaling and recentring keep a box in order\<close>

lemma percent_of_nonneg:
  assumes "0 \<le> mp" "0 \<le> d" "kind = NumpyInt64 \<Longrightarrow> d * mp < 2 ^ 63"
  shows "0 \<le> percent_of kind d mp"
proof -
  have v: "0 \<le> d * mp" using assms by simp
  have r0: "0 \<le> real_of_int (d * mp)" using v by (simp only: of_int_0_le_iff)
  have q: "0 \<le> real_of_int (d * mp) / 100" using r0 by (intro divide_nonneg_nonneg) simp_all
  show ?thesis
  proof (cases kind)
    case NumpyInt64
    have w: "wrap64 (d * mp) = d * mp" using v assms(3)[OF NumpyInt64] by (intro wrap64_id) simp_all
    have "0 \<le> fl (real_of_int (d * mp))" using r0 by (rule fl_nonneg)
    then have "0 \<le> fl (real_of_int (d * mp)) / 100" by simp
    then have "0 \<le> py_int (fl (fl (real_of_int (d * mp)) / 100))"
      by (intro py_int_nonneg fl_nonneg)
    then show ?thesis by (simp add: percent_of_def NumpyInt64 w)
  next
    case PythonInt
    have "0 \<le> py_int (fl (real_of_int (d * mp) / 100))" using q by (intro py_int_nonneg fl_nonneg)
    then show ?thesis by (simp add: percent_of_def PythonInt)
  qed
qed

lemma product_below:
  fixes d mp :: int
  assumes "0 \<le> d" "d < 2 ^ 31" "0 \<le> mp" "mp < 2 ^ 32"
  shows "d * mp < 2 ^ 63"
proof -
  have "d * mp \<le> (2 ^ 31 - 1) * mp" using assms by (intro mult_right_mono) simp_all
  also have "\<dots> \<le> (2 ^ 31 - 1) * (2 ^ 32 - 1)" using assms by (intro mult_left_mono) simp_all
  also have "\<dots> < (2 ^ 63 :: int)" by simp
  finally show ?thesis .
qed

lemma add_margin_weak:
  assumes "0 \<le> mp" "l \<le> r" "t \<le> b" "l \<le> int (width work)" "0 \<le> r"
    "t \<le> int (height work)" "0 \<le> b"
    "kind = NumpyInt64 \<Longrightarrow> (r - l) * mp < 2 ^ 63"
    "kind = NumpyInt64 \<Longrightarrow> (b - t) * mp < 2 ^ 63"
  shows "weak_box work (add_margin work mp (kind, l, t, r, b))"
proof -
  have d: "0 \<le> r - l" "0 \<le> b - t" using assms by simp_all
  have "0 \<le> percent_of kind (r - l) mp" "0 \<le> percent_of kind (b - t) mp"
    using percent_of_nonneg[OF assms(1) d(1) assms(8)] percent_of_nonneg[OF assms(1) d(2) assms(9)]
    by simp_all
  then show ?thesis using assms(1-7)
    unfolding add_margin_def Let_def weak_box_def prod.case by simp
qed

lemma py_int_ratio_mono:
  assumes "0 < ratio" "x \<le> y"
  shows "py_int (fl (fl (real_of_int x) / ratio)) \<le> py_int (fl (fl (real_of_int y) / ratio))"
proof -
  have "fl (real_of_int x) \<le> fl (real_of_int y)" using assms(2) by (intro fl_mono) simp
  then have "fl (real_of_int x) / ratio \<le> fl (real_of_int y) / ratio"
    using assms(1) by (intro divide_right_mono) simp_all
  then show ?thesis by (intro py_int_mono fl_mono)
qed

lemma py_int_ratio_nonneg:
  assumes "0 < ratio" "0 \<le> x"
  shows "0 \<le> py_int (fl (fl (real_of_int x) / ratio))"
proof -
  have "0 \<le> fl (real_of_int x)" using assms(2) by (intro fl_nonneg) simp
  then have "0 \<le> fl (real_of_int x) / ratio" using assms(1) by simp
  then show ?thesis by (intro py_int_nonneg fl_nonneg)
qed

lemma unscale_le:
  fixes n :: nat
  assumes "0 < ratio" "n < 2 ^ 31" "0 \<le> x" "x \<le> py_int (fl (real n * ratio))"
  shows "py_int (fl (real_of_int x / ratio)) \<le> int n"
proof -
  define N where "N = real n"
  define y where "y = N * ratio"
  define z where "z = real_of_int x / ratio"
  have N0: "0 \<le> N" by (simp add: N_def)
  have Nb: "N < 2 ^ 31" using assms(2) unfolding N_def
    by (metis of_nat_less_iff of_nat_numeral of_nat_power)
  have y0: "0 \<le> y" using assms(1) N0 by (simp add: y_def)
  have fy: "0 \<le> fl y" using y0 by (rule fl_nonneg)
  have "real_of_int x \<le> real_of_int (py_int (fl y))"
    using assms(4) by (simp add: y_def N_def)
  also have "\<dots> \<le> fl y" using fy by (rule py_int_le)
  also have "\<dots> \<le> y + y / 2 ^ 53" using y0 by (rule fl_upper)
  finally have "real_of_int x / ratio \<le> (y + y / 2 ^ 53) / ratio"
    using assms(1) by (intro divide_right_mono) auto
  also have "(y + y / 2 ^ 53) / ratio = N + N / 2 ^ 53"
    using assms(1) by (simp add: y_def field_simps)
  finally have zb: "z \<le> N + N / 2 ^ 53" by (simp add: z_def)
  have z0: "0 \<le> z" using assms(1,3) by (simp add: z_def)
  have "fl z \<le> z + z / 2 ^ 53" using z0 by (rule fl_upper)
  then have "fl z < N + 1" using zb Nb N0 by simp
  moreover have "real_of_int (py_int (fl z)) \<le> fl z" using z0 by (intro py_int_le fl_nonneg)
  ultimately have "real_of_int (py_int (fl z)) < real_of_int (int n + 1)" by (simp add: N_def)
  then have "py_int (fl z) < int n + 1" by (simp only: of_int_less_iff)
  then show ?thesis by (simp add: z_def)
qed

lemma downscale_resized:
  assumes "resize_ok resize" "wf_image img" "resizable max_dim img"
    "max_dim < max (width img) (height img)" "downscale max_dim resize img = (wk, ratio)"
  shows "wf_image wk"
    and "width wk = nat (py_int (fl (real (width img) * ratio)))"
    and "height wk = nat (py_int (fl (real (height img) * ratio)))"
proof -
  define w where "w = nat (py_int (fl (real (width img) * ratio)))"
  define h where "h = nat (py_int (fl (real (height img) * ratio)))"
  have e: "ratio = fl (real max_dim / real (max (width img) (height img)))" "wk = resize img (w, h)"
    using assms(4,5) by (auto simp: downscale_def Let_def w_def h_def)
  have "work_size max_dim img = (w, h)"
    using assms(4) by (simp add: work_size_def Let_def w_def h_def e(1))
  then have p: "0 < w" "0 < h" using assms(3) by (simp_all add: resizable_def)
  have "wf_image (resize img (w, h)) \<and> width (resize img (w, h)) = w \<and>
        height (resize img (w, h)) = h"
    using assms(1,2) p unfolding resize_ok_def by blast
  then show "wf_image wk" "width wk = nat (py_int (fl (real (width img) * ratio)))"
    "height wk = nat (py_int (fl (real (height img) * ratio)))"
    by (simp_all add: e(2) w_def h_def)
qed

lemma downscale_wf:
  assumes "resize_ok resize" "wf_image img" "downscale max_dim resize img = (wk, ratio)"
    "resizable max_dim img"
  shows "wf_image wk"
proof (cases "max_dim < max (width img) (height img)")
  case True
  show ?thesis by (rule downscale_resized(1)[OF assms(1,2,4) True assms(3)])
next
  case False
  then show ?thesis using assms(2,3) by (simp add: downscale_def)
qed

lemma downscale_ratio_pos:
  assumes "0 < max_dim" "downscale max_dim resize img = (wk, ratio)"
  shows "0 < ratio"
proof (cases "max_dim < max (width img) (height img)")
  case True
  define q where "q = real max_dim / real (max (width img) (height img))"
  have "0 < q" using assms(1) True by (simp add: q_def)
  then have "2 powi (expo q) \<le> fl q" using fl_pos_bounds[of q] by simp
  moreover have "(0::real) < 2 powi (expo q)" by simp
  ultimately have "0 < fl q" by linarith
  then show ?thesis using assms(2) True by (simp add: downscale_def Let_def q_def)
next
  case False
  then show ?thesis using assms(2) by (simp add: downscale_def)
qed

lemma downscale_dims:
  assumes "resize_ok resize" "wf_image img" "width img < 2 ^ 31" "height img < 2 ^ 31"
    "downscale max_dim resize img = (wk, ratio)" "resizable max_dim img"
  shows "width wk \<le> width img" "height wk \<le> height img"
proof -
  have A: "nat (py_int (fl (real n * fl q))) \<le> n" if "n < 2 ^ 31" "0 \<le> q" "q \<le> 1" for n :: nat and q
  proof -
    have "\<bar>1::int\<bar> < 2 ^ 53" by simp
    then have "fl q \<le> real_of_int 1" using that(3) by (intro fl_le_of_int) simp_all
    then have q1: "fl q \<le> 1" by simp
    have q0: "0 \<le> fl q" using that(2) by (rule fl_nonneg)
    have "real n * fl q \<le> real n * 1" using q1 by (intro mult_left_mono) auto
    then have "real n * fl q \<le> real_of_int (int n)" by simp
    moreover have "\<bar>int n\<bar> < 2 ^ 53" using that(1) by simp
    ultimately have "fl (real n * fl q) \<le> real_of_int (int n)" by (intro fl_le_of_int)
    then have "py_int (fl (real n * fl q)) \<le> py_int (real_of_int (int n))" by (rule py_int_mono)
    then have "py_int (fl (real n * fl q)) \<le> int n" by (simp only: py_int_of_int)
    then show ?thesis by simp
  qed
  have "width wk \<le> width img \<and> height wk \<le> height img"
  proof (cases "max_dim < max (width img) (height img)")
    case True
    define q where "q = real max_dim / real (max (width img) (height img))"
    have q: "0 \<le> q" "q \<le> 1" using True by (simp_all add: q_def)
    have e: "ratio = fl q"
      using assms(5) True by (auto simp: downscale_def Let_def q_def)
    have "width wk = nat (py_int (fl (real (width img) * fl q)))"
      "height wk = nat (py_int (fl (real (height img) * fl q)))"
      using downscale_resized(2,3)[OF assms(1,2,6) True assms(5)] by (simp_all add: e)
    then show ?thesis
      using A[OF assms(3) q] A[OF assms(4) q] by simp
  next
    case False
    then have "wk = img" using assms(5) by (simp add: downscale_def)
    then show ?thesis by simp
  qed
  then show "width wk \<le> width img" "height wk \<le> height img" by simp_all
qed

lemma downscale_unscale:
  assumes "resize_ok resize" "wf_image img" "width img < 2 ^ 31" "height img < 2 ^ 31"
    "0 < max_dim" "downscale max_dim resize img = (wk, ratio)" "resizable max_dim img"
  shows "0 \<le> x \<Longrightarrow> x \<le> int (width wk) \<Longrightarrow>
           py_int (fl (fl (real_of_int x) / ratio)) \<le> int (width img)"
    and "0 \<le> y \<Longrightarrow> y \<le> int (height wk) \<Longrightarrow>
           py_int (fl (fl (real_of_int y) / ratio)) \<le> int (height img)"
proof -
  have rp: "0 < ratio" using downscale_ratio_pos[OF assms(5,6)] .
  have dims: "width wk \<le> width img" "height wk \<le> height img"
    using downscale_dims[OF assms(1,2,3,4,6,7)] .
  have cx: "0 \<le> x \<Longrightarrow> x \<le> int (width wk) \<Longrightarrow> fl (real_of_int x) = real_of_int x" for x
    using dims(1) assms(3) by (intro fl_of_int) simp
  have cy: "0 \<le> y \<Longrightarrow> y \<le> int (height wk) \<Longrightarrow> fl (real_of_int y) = real_of_int y" for y
    using dims(2) assms(4) by (intro fl_of_int) simp
  have W: "0 \<le> x \<Longrightarrow> x \<le> int (width wk) \<Longrightarrow>
           py_int (fl (real_of_int x / ratio)) \<le> int (width img)" for x
  proof (cases "max_dim < max (width img) (height img)")
    case True
    assume x: "0 \<le> x" "x \<le> int (width wk)"
    have "width wk = nat (py_int (fl (real (width img) * ratio)))"
      by (rule downscale_resized(2)[OF assms(1,2,7) True assms(6)])
    moreover have "0 \<le> py_int (fl (real (width img) * ratio))"
      using rp by (intro py_int_nonneg fl_nonneg) simp
    ultimately have "x \<le> py_int (fl (real (width img) * ratio))" using x by simp
    then show ?thesis using unscale_le[OF rp assms(3) x(1)] by simp
  next
    case False
    assume x: "0 \<le> x" "x \<le> int (width wk)"
    have e: "wk = img" "ratio = 1" using assms(6) False by (simp_all add: downscale_def)
    have "\<bar>x\<bar> < 2 ^ 53" using x e assms(3) by simp
    then show ?thesis using x e by (simp add: fl_of_int)
  qed
  have H: "0 \<le> y \<Longrightarrow> y \<le> int (height wk) \<Longrightarrow>
           py_int (fl (real_of_int y / ratio)) \<le> int (height img)" for y
  proof (cases "max_dim < max (width img) (height img)")
    case True
    assume y: "0 \<le> y" "y \<le> int (height wk)"
    have "height wk = nat (py_int (fl (real (height img) * ratio)))"
      by (rule downscale_resized(3)[OF assms(1,2,7) True assms(6)])
    moreover have "0 \<le> py_int (fl (real (height img) * ratio))"
      using rp by (intro py_int_nonneg fl_nonneg) simp
    ultimately have "y \<le> py_int (fl (real (height img) * ratio))" using y by simp
    then show ?thesis using unscale_le[OF rp assms(4) y(1)] by simp
  next
    case False
    assume y: "0 \<le> y" "y \<le> int (height wk)"
    have e: "wk = img" "ratio = 1" using assms(6) False by (simp_all add: downscale_def)
    have "\<bar>y\<bar> < 2 ^ 53" using y e assms(4) by simp
    then show ?thesis using y e by (simp add: fl_of_int)
  qed
  show "0 \<le> x \<Longrightarrow> x \<le> int (width wk) \<Longrightarrow>
          py_int (fl (fl (real_of_int x) / ratio)) \<le> int (width img)"
    using W[of x] cx[of x] by simp
  show "0 \<le> y \<Longrightarrow> y \<le> int (height wk) \<Longrightarrow>
          py_int (fl (fl (real_of_int y) / ratio)) \<le> int (height img)"
    using H[of y] cy[of y] by simp
qed

lemma scale_back_weak:
  assumes "resize_ok resize" "wf_image img" "width img < 2 ^ 31" "height img < 2 ^ 31"
    "0 < max_dim" "downscale max_dim resize img = (wk, ratio)" "weak_box wk bx"
    "resizable max_dim img"
  shows "weak_box img (scale_back ratio bx)"
proof -
  obtain l t r b where bx: "bx = (l, t, r, b)" by (cases bx) auto
  have w: "0 \<le> l" "l \<le> r" "r \<le> int (width wk)" "0 \<le> t" "t \<le> b" "b \<le> int (height wk)"
    using assms(7) by (simp_all add: weak_box_def bx)
  have rp: "0 < ratio" using downscale_ratio_pos[OF assms(5,6)] .
  have "0 \<le> r" "0 \<le> b" using w by simp_all
  then show ?thesis
    unfolding bx scale_back_def weak_box_def prod.case
    using py_int_ratio_nonneg[OF rp w(1)] py_int_ratio_nonneg[OF rp w(4)]
      py_int_ratio_mono[OF rp w(2)] py_int_ratio_mono[OF rp w(5)]
      downscale_unscale(1)[OF assms(1-6,8) _ w(3)] downscale_unscale(2)[OF assms(1-6,8) _ w(6)]
    by simp
qed

lemma recenter_around:
  assumes "l \<le> r" "\<bar>l\<bar> < 2 ^ 31" "\<bar>r\<bar> < 2 ^ 31" "\<bar>t\<bar> < 2 ^ 31" "\<bar>b\<bar> < 2 ^ 31"
    and "recenter (l, t, r, b) = (l', t', r', b')"
  shows "l' \<le> (l + r) div 2 \<and> (l + r) div 2 \<le> r' \<and> t' \<le> (t + b) div 2 \<and> (t + b) div 2 \<le> b'"
proof -
  define h where "h = py_int (fl (real_of_int (r - l) * fl (14/10)))"
  have "0 \<le> real_of_int (r - l) * fl (14/10)" using assms(1) fl_c14_bounds(1) by simp
  then have h0: "0 \<le> real_of_int h" unfolding h_def by (simp add: py_int_nonneg fl_nonneg)
  have w0: "0 \<le> real_of_int (r - l)" using assms(1) by simp
  have e: "l' = py_int (real_of_int ((l + r) div 2) - real_of_int (r - l) / 2)"
    "t' = py_int (real_of_int ((t + b) div 2) - real_of_int h / 2)"
    "r' = py_int (real_of_int ((l + r) div 2) + real_of_int (r - l) / 2)"
    "b' = py_int (real_of_int ((t + b) div 2) + real_of_int h / 2)"
    using assms(6) unfolding recenter_exact[OF assms(2,3,4,5)] Let_def h_def by simp_all
  have "py_int (real_of_int ((l + r) div 2) - real_of_int (r - l) / 2) \<le> py_int (real_of_int ((l + r) div 2))"
    using w0 by (intro py_int_mono) simp
  moreover have "py_int (real_of_int ((l + r) div 2)) \<le> py_int (real_of_int ((l + r) div 2) + real_of_int (r - l) / 2)"
    using w0 by (intro py_int_mono) simp
  moreover have "py_int (real_of_int ((t + b) div 2) - real_of_int h / 2) \<le> py_int (real_of_int ((t + b) div 2))"
    using h0 by (intro py_int_mono) simp
  moreover have "py_int (real_of_int ((t + b) div 2)) \<le> py_int (real_of_int ((t + b) div 2) + real_of_int h / 2)"
    using h0 by (intro py_int_mono) simp
  ultimately show ?thesis unfolding e by (simp only: py_int_of_int)
qed

lemma center_crop_weak:
  assumes "width img < 2 ^ 31" "height img < 2 ^ 31" "0 \<le> fl m" "fl m \<le> fl (1 - fl m)" "fl (1 - fl m) \<le> 1"
  shows "weak_box img (center_crop m img)"
proof -
  have A: "0 \<le> py_int (fl (real n * fl m)) \<and>
           py_int (fl (real n * fl m)) \<le> py_int (fl (real n * fl (1 - fl m))) \<and>
           py_int (fl (real n * fl (1 - fl m))) \<le> int n" if "n < 2 ^ 31" for n :: nat
  proof -
    have "0 \<le> real n * fl m" using assms(3) by simp
    then have 1: "0 \<le> py_int (fl (real n * fl m))" by (intro py_int_nonneg fl_nonneg)
    have "real n * fl m \<le> real n * fl (1 - fl m)" using assms(4) by (intro mult_left_mono) auto
    then have 2: "py_int (fl (real n * fl m)) \<le> py_int (fl (real n * fl (1 - fl m)))"
      by (intro py_int_mono fl_mono)
    have "real n * fl (1 - fl m) \<le> real n * 1" using assms(5) by (intro mult_left_mono) auto
    then have "real n * fl (1 - fl m) \<le> real_of_int (int n)" by simp
    moreover have "\<bar>int n\<bar> < 2 ^ 53" using that by simp
    ultimately have "fl (real n * fl (1 - fl m)) \<le> real_of_int (int n)" by (intro fl_le_of_int)
    then have "py_int (fl (real n * fl (1 - fl m))) \<le> py_int (real_of_int (int n))"
      by (rule py_int_mono)
    then have 3: "py_int (fl (real n * fl (1 - fl m))) \<le> int n" by (simp only: py_int_of_int)
    show ?thesis using 1 2 3 by simp
  qed
  show ?thesis
    unfolding center_crop_def Let_def weak_box_def prod.case
    using A[OF assms(1)] A[OF assms(2)] by simp
qed

lemma center_crop_15_weak:
  assumes "width img < 2 ^ 31" "height img < 2 ^ 31"
  shows "weak_box img (center_crop (15/100) img)"
  by (rule center_crop_weak[OF assms]) (simp_all only: fl_c15_raw, simp_all add: fl_c85s_num)

lemma center_crop_18_weak:
  assumes "width img < 2 ^ 31" "height img < 2 ^ 31"
  shows "weak_box img (center_crop (18/100) img)"
  by (rule center_crop_weak[OF assms]) (simp_all only: fl_c18_raw, simp_all add: fl_c82s_num)

lemma clamp_recenter_weak:
  assumes "0 \<le> l" "l \<le> r" "r \<le> int (width img)" "0 \<le> t" "t \<le> b" "b \<le> int (height img)"
    "width img < 2 ^ 31" "height img < 2 ^ 31"
  shows "weak_box img (clamp_box img (recenter (l, t, r, b)))"
proof -
  obtain l' t' r' b' where rc: "recenter (l, t, r, b) = (l', t', r', b')"
    by (cases "recenter (l, t, r, b)") auto
  have ab: "\<bar>l\<bar> < 2 ^ 31" "\<bar>r\<bar> < 2 ^ 31" "\<bar>t\<bar> < 2 ^ 31" "\<bar>b\<bar> < 2 ^ 31"
    using assms by simp_all
  note a = recenter_around[OF assms(2) ab rc]
  have "l \<le> (l + r) div 2" "(l + r) div 2 \<le> r" "t \<le> (t + b) div 2" "(t + b) div 2 \<le> b"
    using assms(2,5) by linarith+
  then show ?thesis using a assms unfolding rc clamp_box_def weak_box_def prod.case by simp
qed

lemma verify_aspect_weak:
  assumes "weak_box img bx" "width img < 2 ^ 31" "height img < 2 ^ 31"
  shows "weak_box img (verify_aspect img bx)"
proof -
  obtain l t r b where bx: "bx = (l, t, r, b)" by (cases bx) auto
  have w: "0 \<le> l" "l \<le> r" "r \<le> int (width img)" "0 \<le> t" "t \<le> b" "b \<le> int (height img)"
    using assms(1) by (simp_all add: weak_box_def bx)
  show ?thesis
    unfolding verify_aspect_def Let_def bx
    using clamp_recenter_weak[OF w assms(2,3)] assms(1) bx by simp
qed

lemma clamp_box_weak: "weak_box img bx \<Longrightarrow> clamp_box img bx = bx"
  by (cases bx) (simp add: weak_box_def clamp_box_def)

lemma length_dark_mask [simp]: "length (dark_mask k arr) = length arr"
  by (simp add: dark_mask_def Let_def)

lemma find_dark_rectangle_weak:
  assumes "resize_ok resize" "wf_image img" "width img < 2 ^ 31" "height img < 2 ^ 31"
    "0 \<le> margin_percent" "margin_percent < 2 ^ 32" "resizable 800 img"
  shows "weak_box img (find_dark_rectangle resize img margin_percent)"
proof (cases "dark_region resize img")
  case None
  show ?thesis
    unfolding find_dark_rectangle_fallback[OF None] by (rule center_crop_15_weak[OF assms(3,4)])
next
  case (Some d)
  obtain wk ratio where ds: "downscale 800 resize img = (wk, ratio)" by fastforce
  obtain l t r b where d: "d = (l, t, r, b)" by (cases d) auto
  have wf: "wf_image wk" using downscale_wf[OF assms(1,2) ds assms(7)] .
  have dims: "width wk \<le> width img" "height wk \<le> height img"
    using downscale_dims[OF assms(1,2,3,4) ds assms(7)] .
  have "first_last (dense_indices (15/100) wk (dark_mask (8/10) (pixels wk))) = Some (l, t, r, b)"
    using Some by (simp add: dark_region_def ds d)
  from dense_region_bounds[OF this]
  have b: "0 \<le> l" "l \<le> r" "r < int (width wk)" "0 \<le> t" "t \<le> b" "b < int (height wk)"
    using wf by (simp_all add: wf_image_def)
  have s: "0 \<le> r - l" "r - l < 2 ^ 31" "0 \<le> b - t" "b - t < 2 ^ 31"
    using b dims assms(3,4) by simp_all
  have "weak_box wk (add_margin wk margin_percent (NumpyInt64, l, t, r, b))"
    using b assms(5) product_below[OF s(1,2) assms(5,6)] product_below[OF s(3,4) assms(5,6)]
    by (intro add_margin_weak) simp_all
  then have "weak_box img (scale_back ratio (add_margin wk margin_percent (NumpyInt64, l, t, r, b)))"
    using scale_back_weak[OF assms(1-4) _ ds _ assms(7),
        of "add_margin wk margin_percent (NumpyInt64, l, t, r, b)"]
    by simp
  then have "weak_box img (verify_aspect img
               (scale_back ratio (add_margin wk margin_percent (NumpyInt64, l, t, r, b))))"
    using assms(3,4) by (rule verify_aspect_weak)
  then show ?thesis
    unfolding find_dark_rectangle_detected[OF Some] ds d by simp
qed

lemma find_card_by_edges_detected:
  assumes "edge_region resize find_edges img = Inr (Some d)"
  shows "find_card_by_edges resize find_edges img mp =
           Inr (clamp_box img (scale_back (snd (downscale 1200 resize img))
                  (add_margin (fst (downscale 1200 resize img)) mp (adjust_ratio d))))"
  using assms unfolding find_card_by_edges_def edge_region_def
  by (simp split: prod.splits sum.splits option.splits)

lemma find_card_by_edges_error:
  assumes "edge_region resize find_edges img = Inl e"
  shows "find_card_by_edges resize find_edges img mp = Inl e"
  using assms unfolding find_card_by_edges_def edge_region_def
  by (simp split: prod.splits sum.splits option.splits)

lemma length_strong_edges_v2:
  "strong_edges_v2 arr = Inr msk \<Longrightarrow> length msk = length arr"
  by (auto simp: strong_edges_v2_def split: sum.splits)

lemma length_strong_edges_contour:
  "strong_edges_contour arr = Inr msk \<Longrightarrow> length msk = length arr"
  by (auto simp: strong_edges_contour_def split: sum.splits)

lemma adjust_ratio_cases:
  assumes "adjust_ratio bx = (kind, bx')"
  shows "(kind = PythonInt \<and> bx' = recenter bx) \<or> (kind = NumpyInt64 \<and> bx' = bx)"
  using assms by (auto simp: adjust_ratio_def Let_def split: if_splits)

lemma adjust_ratio_ordered:
  assumes "0 \<le> l" "l \<le> r" "r < 2 ^ 31" "0 \<le> t" "t \<le> b" "b < 2 ^ 31"
    and "adjust_ratio (l, t, r, b) = (kind, l', t', r', b')"
  shows "l' \<le> r' \<and> t' \<le> b' \<and> l' \<le> r \<and> 0 \<le> r' \<and> t' \<le> b \<and> 0 \<le> b'"
proof (cases "(l', t', r', b') = (l, t, r, b)")
  case True
  then show ?thesis using assms by simp
next
  case False
  then have rc: "recenter (l, t, r, b) = (l', t', r', b')"
    using adjust_ratio_cases[OF assms(7)] by auto
  have ab: "\<bar>l\<bar> < 2 ^ 31" "\<bar>r\<bar> < 2 ^ 31" "\<bar>t\<bar> < 2 ^ 31" "\<bar>b\<bar> < 2 ^ 31"
    using assms by simp_all
  note a = recenter_around[OF assms(2) ab rc]
  have "l \<le> (l + r) div 2" "(l + r) div 2 \<le> r" "t \<le> (t + b) div 2" "(t + b) div 2 \<le> b"
    using assms(2,5) by linarith+
  then show ?thesis using a assms by simp
qed

lemma find_card_by_edges_weak:
  assumes "resize_ok resize" "filter_ok find_edges" "wf_image img" "width img < 2 ^ 31"
    "height img < 2 ^ 31" "0 \<le> margin_percent"
    and res: "find_card_by_edges resize find_edges img margin_percent = Inr bx"
    and mb: "margin_percent < 2 ^ 32" and rs: "resizable 1200 img"
  shows "weak_box img bx"
proof -
  obtain wk ratio where ds: "downscale 1200 resize img = (wk, ratio)" by fastforce
  have wf: "wf_image wk" using downscale_wf[OF assms(1,3) ds rs] .
  have dims: "width wk \<le> width img" "height wk \<le> height img"
    using downscale_dims[OF assms(1,3,4,5) ds rs] .
  have ewf: "length (pixels (find_edges wk)) = height wk"
    using assms(2) wf by (simp add: filter_ok_def wf_image_def)
  show ?thesis
  proof (cases "edge_region resize find_edges img")
    case (Inl e)
    then show ?thesis using res find_card_by_edges_error[OF Inl] by simp
  next
    case (Inr reg)
    obtain msk where m: "strong_edges_v2 (pixels (find_edges wk)) = Inr msk"
      "reg = first_last (dense_indices (8/100) wk msk)"
      using Inr by (auto simp: edge_region_def ds split: sum.splits)
    have lm: "length msk = height wk" using length_strong_edges_v2[OF m(1)] ewf by simp
    show ?thesis
    proof (cases reg)
      case None
      then have "bx = fallback_center_crop img"
        using res find_card_by_edges_fallback[of resize find_edges img margin_percent] Inr by simp
      then show ?thesis
        unfolding fallback_center_crop_def using center_crop_18_weak[OF assms(4,5)] by simp
    next
      case (Some d)
      obtain l t r b where d: "d = (l, t, r, b)" by (cases d) auto
      have "first_last (dense_indices (8/100) wk msk) = Some (l, t, r, b)"
        using Some m(2) d by simp
      from dense_region_bounds[OF this]
      have b: "0 \<le> l" "l \<le> r" "r < int (width wk)" "0 \<le> t" "t \<le> b" "b < int (height wk)"
        using lm by simp_all
      obtain kind l' t' r' b' where aj: "adjust_ratio (l, t, r, b) = (kind, l', t', r', b')"
        by (metis prod_cases5)
      have r31: "r < 2 ^ 31" "b < 2 ^ 31" using b dims assms(4,5) by simp_all
      note o = adjust_ratio_ordered[OF b(1,2) r31(1) b(4,5) r31(2) aj]
      have s: "0 \<le> r - l" "r - l < 2 ^ 31" "0 \<le> b - t" "b - t < 2 ^ 31"
        using b r31 by simp_all
      have k: "kind = NumpyInt64 \<Longrightarrow> (l', t', r', b') = (l, t, r, b)"
        using adjust_ratio_cases[OF aj] by auto
      have p: "kind = NumpyInt64 \<Longrightarrow> (r' - l') * margin_percent < 2 ^ 63"
        "kind = NumpyInt64 \<Longrightarrow> (b' - t') * margin_percent < 2 ^ 63"
        using k product_below[OF s(1,2) assms(6) mb] product_below[OF s(3,4) assms(6) mb]
        by simp_all
      have "weak_box wk (add_margin wk margin_percent (kind, l', t', r', b'))"
        using o b assms(6) p by (intro add_margin_weak) simp_all
      then have "weak_box img (scale_back ratio (add_margin wk margin_percent (kind, l', t', r', b')))"
        using scale_back_weak[OF assms(1,3,4,5) _ ds _ rs,
            of "add_margin wk margin_percent (kind, l', t', r', b')"]
        by simp
      then have "weak_box img (clamp_box img
                   (scale_back ratio (add_margin wk margin_percent (kind, l', t', r', b'))))"
        by (simp add: clamp_box_weak)
      moreover have "bx = clamp_box img
                       (scale_back ratio (add_margin wk margin_percent (kind, l', t', r', b')))"
        using res find_card_by_edges_detected[of resize find_edges img d margin_percent] Inr Some
        by (simp add: ds d aj)
      ultimately show ?thesis by simp
    qed
  qed
qed

subsection \<open>More examples\<close>

lemma resize_ok_blank: "resize_ok blank_resize"
  by (simp add: resize_ok_def blank_resize_def wf_image_def list_all_length)

lemma resizable_small:
  assumes "max (width img) (height img) \<le> max_dim" "0 < width img" "0 < height img"
  shows "resizable max_dim img"
  using assms by (auto simp: resizable_def work_size_def)

lemma filter_ok_id: "filter_ok (\<lambda>im. im)"
  by (simp add: filter_ok_def)

lemma wf_card_photo: "wf_image card_photo"
  by (simp add: wf_image_def card_photo_def list_all_length nth_append)

lemma card_height_minus_5_n: "py_int (fl (- (5 * fl (7/5)))) = - 7"
  using card_height_5_n by (simp add: fl_minus py_int_minus)

lemma card_photo_margin_minus_100:
  "find_dark_rectangle blank_resize card_photo (- 100) = (7, 11, 2, 4)"
proof -
  have a: "add_margin card_photo (- 100) (NumpyInt64, 3, 4, 8, 13) = (8, 13, 3, 4)"
    by (subst add_margin_exact) (simp_all add: trunc_percent_def card_photo_def)
  have s: "scale_back 1 (8, 13, 3, 4) = (8, 13, 3, 4)" by (rule scale_back_one) simp_all
  have r: "recenter (8, 13, 3, 4) = (7, 11, 2, 4)"
    by (subst recenter_exact) (simp_all add: card_height_minus_5_n, simp add: py_int_def)
  have v: "verify_aspect card_photo (8, 13, 3, 4) = (7, 11, 2, 4)"
    by (subst verify_aspect_exact) (simp_all add: r clamp_box_def card_photo_def)
  show ?thesis
    unfolding find_dark_rectangle_detected[OF card_photo_region] card_photo_small fst_conv
      snd_conv a s v ..
qed

lemma dot_photo_mask:
  "dark_mask (8/10) (pixels dot_photo) = map (map (\<lambda>p. p = 0)) (pixels dot_photo)"
proof -
  have m: "np_mean (pixels dot_photo) = 3825 / 16"
    by (simp add: dot_photo_def np_mean_def array_sums)
  have p: "0 < np_mean (pixels dot_photo) - np_std (pixels dot_photo) * (8/10)"
    by (rule threshold_pos) (simp_all add: m, simp add: dot_photo_def array_sums power2_eq_square)
  have l: "np_mean (pixels dot_photo) - np_std (pixels dot_photo) * (8/10) \<le> 255"
    using threshold_le_mean[of "8/10" "pixels dot_photo"] by (simp add: m)
  show ?thesis
    by (rule dark_mask_two_level[OF _ p l]) (auto simp: dot_photo_def)
qed

lemma dot_photo_small: "downscale 800 blank_resize dot_photo = (dot_photo, 1)"
  by (rule downscale_small) (simp add: dot_photo_def)

lemma dot_photo_bounds: "width dot_photo < 2 ^ 31" "height dot_photo < 2 ^ 31"
  by (simp_all add: dot_photo_def)

lemma dot_photo_rows:
  "fst (dense_indices (15/100) dot_photo (dark_mask (8/10) (pixels dot_photo))) = [1]"
  unfolding dense_indices_rows[OF dot_photo_bounds(1) near_c15] dot_photo_mask
  by code_simp

lemma dot_photo_cols:
  "snd (dense_indices (15/100) dot_photo (dark_mask (8/10) (pixels dot_photo))) = [1]"
  unfolding dense_indices_cols[OF dot_photo_bounds(2) near_c15] dot_photo_mask
  by code_simp

lemma dot_photo_region: "dark_region blank_resize dot_photo = Some (1, 1, 1, 1)"
  unfolding dark_region_def dot_photo_small prod.case first_last_split dot_photo_rows
    dot_photo_cols
  by simp

lemma dot_photo_box: "find_dark_rectangle blank_resize dot_photo 3 = (1, 1, 1, 1)"
proof -
  have a: "add_margin dot_photo 3 (NumpyInt64, 1, 1, 1, 1) = (1, 1, 1, 1)"
    by (subst add_margin_exact) (simp_all add: trunc_percent_def dot_photo_def)
  have s: "scale_back 1 (1, 1, 1, 1) = (1, 1, 1, 1)" by (rule scale_back_one) simp_all
  have r: "recenter (1, 1, 1, 1) = (1, 1, 1, 1)"
    by (subst recenter_exact) (simp_all add: py_int_def)
  have v: "verify_aspect dot_photo (1, 1, 1, 1) = (1, 1, 1, 1)"
    by (subst verify_aspect_exact) (simp_all add: r clamp_box_def dot_photo_def)
  show ?thesis
    unfolding find_dark_rectangle_detected[OF dot_photo_region] dot_photo_small fst_conv
      snd_conv a s v ..
qed

lemma one_pixel_box:
  "find_dark_rectangle blank_resize (uniform_image 1 1 128) 3 = (0, 0, 0, 0)"
proof -
  have d: "downscale 800 blank_resize (uniform_image 1 1 128) = (uniform_image 1 1 128, 1)"
    by (simp add: downscale_small)
  have n: "dark_region blank_resize (uniform_image 1 1 128) = None"
    by (rule dark_region_uniform[where c=128]) (unfold d, simp)
  have b: "width (uniform_image 1 1 128) < 2 ^ 31" "height (uniform_image 1 1 128) < 2 ^ 31"
    by simp_all
  show ?thesis
    unfolding find_dark_rectangle_fallback[OF n] center_crop_15[OF b] by simp
qed

subsection \<open>Uniform images\<close>

lemma uniform_pixels_uniform_image: "uniform_pixels (uniform_image w h c) c"
  by (simp add: uniform_pixels_def)

lemma smart_uniform:
  "crop_card_smart blank_resize (\<lambda>im. im) (uniform_image 500 500 0) = Inr (100, 75, 400, 425)"
proof -
  have s: "downscale_contour blank_resize (uniform_image 500 500 0) = (uniform_image 500 500 0, 1)"
    by (simp add: downscale_contour_small)
  have r: "contour_region blank_resize (\<lambda>im. im) (uniform_image 500 500 0) = Inr None"
    by (rule contour_region_uniform[where c = 0]) (simp_all add: s concat_uniform)
  show ?thesis
    unfolding crop_card_smart_fallback[OF r] s
    by (simp add: contour_fallback_exact scale_back_one)
qed

subsection \<open>Percentiles\<close>

lemma fl_c90_raw: "fl (90/100) = 8106479329266893 / 9007199254740992"
  by (subst fl_eval[where e="-1"]) (simp_all add: round_even_def Let_def power_int_minus)

lemma near_c90: "near_frac (fl (90/100)) 9 10"
  unfolding fl_c90_raw near_frac_def by simp

lemma near_q85: "near_frac (fl (real 85 / 100)) 17 20"
  using near_c85 by simp

lemma near_q90: "near_frac (fl (real 90 / 100)) 9 10"
  using near_c90 by simp


lemma np_percentile_flat:
  fixes p d :: nat
  assumes c: "near_frac (fl (real q / 100)) p d" and pd: "p < d"
    and n: "1 < length a" "length a < 2 ^ 31"
    and k: "(length a - 1) * p div d = k"
    and v: "sort a ! k = v" "sort a ! (k + 1) = v" "v \<le> 255"
  shows "np_percentile a q = Inr (real v)"
proof -
  define m where "m = length a - 1"
  define vi where "vi = fl (real m * fl (real q / 100))"
  have m: "m < 2 ^ 31" "0 < m" using n by (simp_all add: m_def)
  have d0: "0 < d" using c by (simp add: near_frac_def)
  have c0: "0 \<le> fl (real q / 100)" by (intro fl_nonneg) simp
  have vi0: "0 \<le> vi" unfolding vi_def by (intro fl_nonneg mult_nonneg_nonneg c0) simp
  have "py_int vi = int (m * p div d)" unfolding vi_def by (rule py_int_fl_scale[OF m(1) c])
  then have fl: "\<lfloor>vi\<rfloor> = int k" using vi0 k by (simp add: py_int_def m_def)
  have "vi < of_int (int m) \<longleftrightarrow> int (m * p) < int m * int d"
    unfolding vi_def by (rule fl_scale_less_iff[OF m(1) c])
  moreover have "m * p < m * d" using pd m(2) by simp
  then have "int (m * p) < int m * int d" by (metis of_nat_less_iff of_nat_mult)
  ultimately have lt: "\<not> real m \<le> vi" by simp
  have a: "a \<noteq> []" using n by auto
  have fv: "fl (real v) = real v" using fl_of_int[of "int v"] v(3) by simp
  have v2: "sort a ! Suc k = v" using v(2) by simp
  have "np_percentile a q = Inr (real v)"
    unfolding np_percentile_def Let_def length_sort m_def[symmetric] vi_def[symmetric]
    using a lt by (simp add: fl v(1) v2 fv)
  then show ?thesis .
qed

lemma edge_photo_sorted:
  "sort (filter (\<lambda>p. 0 < p) (concat (pixels edge_photo))) = replicate 104 10 @ replicate 16 255"
  by code_simp

lemma edge_photo_threshold:
  "np_percentile (filter (\<lambda>p. 0 < p) (concat (pixels edge_photo))) 85 = Inr 10"
proof -
  have l: "length (filter (\<lambda>p. 0 < p) (concat (pixels edge_photo))) = 120"
    using arg_cong[OF edge_photo_sorted, of length] by simp
  have "np_percentile (filter (\<lambda>p. 0 < p) (concat (pixels edge_photo))) 85 = Inr (real 10)"
    by (rule np_percentile_flat[OF near_q85, where k = 101])
      (simp_all add: l edge_photo_sorted nth_append)
  then show ?thesis by simp
qed

subsection \<open>An edge image with a detected square\<close>

lemma edge_photo_small: "downscale 1200 blank_resize edge_photo = (edge_photo, 1)"
  by (rule downscale_small) (simp add: edge_photo_def)

lemma edge_photo_bounds: "width edge_photo < 2 ^ 31" "height edge_photo < 2 ^ 31"
  by (simp_all add: edge_photo_def)

lemma edge_photo_mask:
  "strong_edges_v2 (pixels edge_photo) = Inr (map (map (\<lambda>p. 10 < p)) (pixels edge_photo))"
  by (simp add: strong_edges_v2_def edge_photo_threshold)

lemma edge_photo_rows:
  "fst (dense_indices (8/100) edge_photo (map (map (\<lambda>p. 10 < p)) (pixels edge_photo))) = [3..<8]"
  unfolding dense_indices_rows[OF edge_photo_bounds(1) near_c08]
  by code_simp

lemma edge_photo_cols:
  "snd (dense_indices (8/100) edge_photo (map (map (\<lambda>p. 10 < p)) (pixels edge_photo))) = [3..<8]"
  unfolding dense_indices_cols[OF edge_photo_bounds(2) near_c08]
  by code_simp

lemma edge_photo_region: "edge_region blank_resize (\<lambda>im. im) edge_photo = Inr (Some (3, 3, 7, 7))"
  unfolding edge_region_def edge_photo_small prod.case edge_photo_mask sum.case first_last_split
    edge_photo_rows edge_photo_cols
  by (simp add: upt_rec_numeral)

lemma card_height_4: "py_int (fl (4 * fl (14/10))) = 5"
  unfolding fl_c14_raw
  by (subst fl_eval[where e=2]) (simp_all add: round_even_def Let_def py_int_def)

lemma card_height_4_n: "py_int (fl (4 * fl (7/5))) = 5"
  using card_height_4 by simp

lemma edge_photo_adjust: "adjust_ratio (3, 3, 7, 7) = (PythonInt, 3, 2, 7, 7)"
proof -
  have r: "recenter (3, 3, 7, 7) = (3, 2, 7, 7)"
    by (subst recenter_exact) (simp_all add: card_height_4_n, simp add: py_int_def)
  show ?thesis by (subst adjust_ratio_exact) (simp_all add: r)
qed

lemma edge_photo_margin_3:
  "find_card_by_edges blank_resize (\<lambda>im. im) edge_photo 3 = Inr (3, 2, 7, 7)"
proof -
  have a: "add_margin edge_photo 3 (PythonInt, 3, 2, 7, 7) = (3, 2, 7, 7)"
    by (subst add_margin_exact) (simp_all add: trunc_percent_def edge_photo_def)
  have s: "scale_back 1 (3, 2, 7, 7) = (3, 2, 7, 7)" by (rule scale_back_one) simp_all
  show ?thesis
    unfolding find_card_by_edges_detected[OF edge_photo_region] edge_photo_small fst_conv
      snd_conv edge_photo_adjust a s
    by (simp add: clamp_box_def edge_photo_def)
qed

lemma edge_photo_margin_25:
  "find_card_by_edges blank_resize (\<lambda>im. im) edge_photo 25 = Inr (2, 1, 8, 8)"
proof -
  have a: "add_margin edge_photo 25 (PythonInt, 3, 2, 7, 7) = (2, 1, 8, 8)"
    by (subst add_margin_exact) (simp_all add: trunc_percent_def edge_photo_def)
  have s: "scale_back 1 (2, 1, 8, 8) = (2, 1, 8, 8)" by (rule scale_back_one) simp_all
  show ?thesis
    unfolding find_card_by_edges_detected[OF edge_photo_region] edge_photo_small fst_conv
      snd_conv edge_photo_adjust a s
    by (simp add: clamp_box_def edge_photo_def)
qed

subsection \<open>A larger margin moves every side outward\<close>

lemma recenter_ordered:
  assumes "l \<le> r" "recenter (l, t, r, b) = (l', t', r', b')"
  shows "l' \<le> r' \<and> t' \<le> b'"
proof -
  define h where "h = py_int (fl (fl (real_of_int (r - l)) * fl (14/10)))"
  define cx where "cx = fl (real_of_int ((l + r) div 2))"
  define cy where "cy = fl (real_of_int ((t + b) div 2))"
  have c: "0 \<le> fl (14/10)" by (intro fl_nonneg) simp
  have w0: "0 \<le> fl (real_of_int (r - l) / 2)" using assms(1) by (intro fl_nonneg) simp
  have "0 \<le> fl (real_of_int (r - l))" using assms(1) by (intro fl_nonneg) simp
  then have "0 \<le> fl (real_of_int (r - l)) * fl (14/10)" using c by simp
  then have "0 \<le> h" unfolding h_def by (intro py_int_nonneg fl_nonneg)
  then have h0: "0 \<le> fl (real_of_int h / 2)" by (intro fl_nonneg) simp
  have e: "l' = py_int (fl (cx - fl (real_of_int (r - l) / 2)))"
    "r' = py_int (fl (cx + fl (real_of_int (r - l) / 2)))"
    "t' = py_int (fl (cy - fl (real_of_int h / 2)))"
    "b' = py_int (fl (cy + fl (real_of_int h / 2)))"
    using assms(2) by (simp_all add: recenter_def Let_def h_def cx_def cy_def)
  have "l' \<le> r'" unfolding e using w0 by (intro py_int_mono fl_mono) linarith
  moreover have "t' \<le> b'" unfolding e using h0 by (intro py_int_mono fl_mono) linarith
  ultimately show ?thesis by simp
qed

lemma adjust_ratio_in_order:
  assumes "l \<le> r" "t \<le> b" "adjust_ratio (l, t, r, b) = (kind, l', t', r', b')"
  shows "l' \<le> r' \<and> t' \<le> b'"
proof (cases "(l', t', r', b') = (l, t, r, b)")
  case True
  then show ?thesis using assms by simp
next
  case False
  then have "recenter (l, t, r, b) = (l', t', r', b')"
    using adjust_ratio_cases[OF assms(3)] by auto
  then show ?thesis by (rule recenter_ordered[OF assms(1)])
qed

lemma product_within:
  fixes d m :: int
  assumes "0 \<le> d" "d < 2 ^ 31" "\<bar>m\<bar> < 2 ^ 32"
  shows "- (2 ^ 63) \<le> d * m" "d * m < 2 ^ 63"
proof -
  have "\<bar>d * m\<bar> = d * \<bar>m\<bar>" using assms(1) by (simp add: abs_mult)
  also have "\<dots> \<le> (2 ^ 31 - 1) * \<bar>m\<bar>" using assms by (intro mult_right_mono) simp_all
  also have "\<dots> \<le> (2 ^ 31 - 1) * (2 ^ 32 - 1)" using assms by (intro mult_left_mono) simp_all
  also have "\<dots> < (2 ^ 63 :: int)" by simp
  finally have "\<bar>d * m\<bar> < 2 ^ 63" .
  then show "- (2 ^ 63) \<le> d * m" "d * m < 2 ^ 63" by linarith+
qed

lemma percent_of_mono:
  assumes "m1 \<le> m2" "0 \<le> d"
    and "kind = NumpyInt64 \<Longrightarrow> - (2 ^ 63) \<le> d * m1 \<and> d * m2 < 2 ^ 63"
  shows "percent_of kind d m1 \<le> percent_of kind d m2"
proof -
  have le: "d * m1 \<le> d * m2" using assms(1,2) by (simp add: mult_left_mono)
  then have r: "real_of_int (d * m1) \<le> real_of_int (d * m2)" by (simp only: of_int_le_iff)
  show ?thesis
  proof (cases kind)
    case NumpyInt64
    have b: "- (2 ^ 63) \<le> d * m1" "d * m2 < 2 ^ 63" using assms(3)[OF NumpyInt64] by simp_all
    have w: "wrap64 (d * m1) = d * m1" "wrap64 (d * m2) = d * m2"
      using b le by (simp_all add: wrap64_id)
    have "fl (real_of_int (d * m1)) \<le> fl (real_of_int (d * m2))" using r by (rule fl_mono)
    then have "fl (real_of_int (d * m1)) / 100 \<le> fl (real_of_int (d * m2)) / 100"
      by (intro divide_right_mono) simp_all
    then have "py_int (fl (fl (real_of_int (d * m1)) / 100))
                 \<le> py_int (fl (fl (real_of_int (d * m2)) / 100))"
      by (intro py_int_mono fl_mono)
    then show ?thesis by (simp add: percent_of_def NumpyInt64 w)
  next
    case PythonInt
    have "real_of_int (d * m1) / 100 \<le> real_of_int (d * m2) / 100"
      using r by (intro divide_right_mono) simp_all
    then have "py_int (fl (real_of_int (d * m1) / 100)) \<le> py_int (fl (real_of_int (d * m2) / 100))"
      by (intro py_int_mono fl_mono)
    then show ?thesis by (simp add: percent_of_def PythonInt)
  qed
qed

lemma add_margin_mono:
  assumes "m1 \<le> m2" "l \<le> r" "t \<le> b"
    and "add_margin wk m1 (kind, l, t, r, b) = (l1, t1, r1, b1)"
    and "add_margin wk m2 (kind, l, t, r, b) = (l2, t2, r2, b2)"
    and "kind = NumpyInt64 \<Longrightarrow> - (2 ^ 63) \<le> (r - l) * m1 \<and> (r - l) * m2 < 2 ^ 63"
    and "kind = NumpyInt64 \<Longrightarrow> - (2 ^ 63) \<le> (b - t) * m1 \<and> (b - t) * m2 < 2 ^ 63"
  shows "l2 \<le> l1 \<and> t2 \<le> t1 \<and> r1 \<le> r2 \<and> b1 \<le> b2"
proof -
  have w: "percent_of kind (r - l) m1 \<le> percent_of kind (r - l) m2"
    using assms(1,2,6) by (intro percent_of_mono) simp_all
  have h: "percent_of kind (b - t) m1 \<le> percent_of kind (b - t) m2"
    using assms(1,3,7) by (intro percent_of_mono) simp_all
  have e: "l1 = max 0 (l - percent_of kind (r - l) m1)"
    "t1 = max 0 (t - percent_of kind (b - t) m1)"
    "r1 = min (int (width wk)) (r + percent_of kind (r - l) m1)"
    "b1 = min (int (height wk)) (b + percent_of kind (b - t) m1)"
    "l2 = max 0 (l - percent_of kind (r - l) m2)"
    "t2 = max 0 (t - percent_of kind (b - t) m2)"
    "r2 = min (int (width wk)) (r + percent_of kind (r - l) m2)"
    "b2 = min (int (height wk)) (b + percent_of kind (b - t) m2)"
    using assms(4,5) unfolding add_margin_def Let_def prod.case by simp_all
  have "l2 \<le> l1" unfolding e using w by linarith
  moreover have "t2 \<le> t1" unfolding e using h by linarith
  moreover have "r1 \<le> r2" unfolding e using w by linarith
  moreover have "b1 \<le> b2" unfolding e using h by linarith
  ultimately show ?thesis by simp
qed

lemma scale_back_mono:
  assumes "0 < ratio" "l2 \<le> l1 \<and> t2 \<le> t1 \<and> r1 \<le> r2 \<and> b1 \<le> b2"
    and "scale_back ratio (l1, t1, r1, b1) = (x1, y1, u1, v1)"
    and "scale_back ratio (l2, t2, r2, b2) = (x2, y2, u2, v2)"
  shows "x2 \<le> x1 \<and> y2 \<le> y1 \<and> u1 \<le> u2 \<and> v1 \<le> v2"
  using assms(2,3,4) py_int_ratio_mono[OF assms(1)]
  by (auto simp: scale_back_def)

lemma clamp_box_mono:
  assumes "l2 \<le> l1 \<and> t2 \<le> t1 \<and> r1 \<le> r2 \<and> b1 \<le> b2"
    and "clamp_box img (l1, t1, r1, b1) = (x1, y1, u1, v1)"
    and "clamp_box img (l2, t2, r2, b2) = (x2, y2, u2, v2)"
  shows "x2 \<le> x1 \<and> y2 \<le> y1 \<and> u1 \<le> u2 \<and> v1 \<le> v2"
  using assms by (auto simp: clamp_box_def)

lemma margin_box_mono:
  assumes "m1 \<le> m2"
    and "margin_box resize gray m1 = Some (l1, t1, r1, b1)"
    and "margin_box resize gray m2 = Some (l2, t2, r2, b2)"
    and im: "resize_ok resize" "wf_image gray" "width gray < 2 ^ 31" "height gray < 2 ^ 31"
      "resizable 800 gray"
    and mb: "\<bar>m1\<bar> < 2 ^ 32" "\<bar>m2\<bar> < 2 ^ 32"
  shows "l2 \<le> l1 \<and> t2 \<le> t1 \<and> r1 \<le> r2 \<and> b1 \<le> b2"
proof -
  obtain wk ratio where d: "downscale 800 resize gray = (wk, ratio)" by fastforce
  have rp: "0 < ratio" using downscale_ratio_pos[OF _ d] by simp
  have wf: "wf_image wk" using downscale_wf[OF im(1,2) d im(5)] .
  have dims: "width wk \<le> width gray" "height wk \<le> height gray"
    using downscale_dims[OF im(1,2,3,4) d im(5)] .
  obtain l t r b where reg: "dark_region resize gray = Some (l, t, r, b)"
    using assms(2) by (auto simp: margin_box_def split: option.splits)
  have "first_last (dense_indices (15/100) wk (dark_mask (8/10) (pixels wk))) = Some (l, t, r, b)"
    using reg d by (simp add: dark_region_def)
  from dense_region_bounds[OF this]
  have o: "0 \<le> l" "l \<le> r" "r < int (width wk)" "0 \<le> t" "t \<le> b" "b < int (height wk)"
    using wf by (simp_all add: wf_image_def)
  have s: "0 \<le> r - l" "r - l < 2 ^ 31" "0 \<le> b - t" "b - t < 2 ^ 31"
    using o dims im(3,4) by simp_all
  obtain a1 c1 e1 f1 where a1: "add_margin wk m1 (NumpyInt64, l, t, r, b) = (a1, c1, e1, f1)"
    by (metis prod_cases4)
  obtain a2 c2 e2 f2 where a2: "add_margin wk m2 (NumpyInt64, l, t, r, b) = (a2, c2, e2, f2)"
    by (metis prod_cases4)
  have s1: "scale_back ratio (a1, c1, e1, f1) = (l1, t1, r1, b1)"
    using assms(2) reg d a1 by (simp add: margin_box_def)
  have s2: "scale_back ratio (a2, c2, e2, f2) = (l2, t2, r2, b2)"
    using assms(3) reg d a2 by (simp add: margin_box_def)
  have am: "a2 \<le> a1 \<and> c2 \<le> c1 \<and> e1 \<le> e2 \<and> f1 \<le> f2"
    using product_within[OF s(1,2) mb(1)] product_within[OF s(1,2) mb(2)]
      product_within[OF s(3,4) mb(1)] product_within[OF s(3,4) mb(2)]
    by (intro add_margin_mono[OF assms(1) o(2,5) a1 a2]) simp_all
  show ?thesis by (rule scale_back_mono[OF rp am s1 s2])
qed

lemma find_card_by_edges_mono:
  assumes "m1 \<le> m2"
    and "find_card_by_edges resize find_edges img m1 = Inr (l1, t1, r1, b1)"
    and "find_card_by_edges resize find_edges img m2 = Inr (l2, t2, r2, b2)"
    and im: "resize_ok resize" "wf_image img" "width img < 2 ^ 31" "height img < 2 ^ 31"
      "resizable 1200 img" "filter_ok find_edges"
    and mb: "\<bar>m1\<bar> < 2 ^ 32" "\<bar>m2\<bar> < 2 ^ 32"
  shows "l2 \<le> l1 \<and> t2 \<le> t1 \<and> r1 \<le> r2 \<and> b1 \<le> b2"
proof -
  obtain wk ratio where d: "downscale 1200 resize img = (wk, ratio)" by fastforce
  have rp: "0 < ratio" using downscale_ratio_pos[OF _ d] by simp
  have wf: "wf_image wk" using downscale_wf[OF im(1,2) d im(5)] .
  have dims: "width wk \<le> width img" "height wk \<le> height img"
    using downscale_dims[OF im(1,2,3,4) d im(5)] .
  have ewf: "length (pixels (find_edges wk)) = height wk"
    using im(6) wf by (simp add: filter_ok_def wf_image_def)
  obtain reg where reg: "edge_region resize find_edges img = Inr reg"
    using assms(2) find_card_by_edges_error[of resize find_edges img _ m1]
    by (cases "edge_region resize find_edges img") auto
  show ?thesis
  proof (cases reg)
    case None
    then show ?thesis
      using assms(2,3) find_card_by_edges_fallback[of resize find_edges img] reg by simp
  next
    case (Some bx)
    obtain l t r b where bx: "bx = (l, t, r, b)" by (metis prod_cases4)
    obtain msk where m: "strong_edges_v2 (pixels (find_edges wk)) = Inr msk"
      and fl: "first_last (dense_indices (8/100) wk msk) = Some (l, t, r, b)"
      using reg Some bx d by (auto simp: edge_region_def split: sum.splits)
    have lm: "length msk = height wk" using length_strong_edges_v2[OF m] ewf by simp
    have o: "0 \<le> l" "l \<le> r" "r < int (width wk)" "0 \<le> t" "t \<le> b" "b < int (height wk)"
      using dense_region_bounds[OF fl] lm by simp_all
    have s: "0 \<le> r - l" "r - l < 2 ^ 31" "0 \<le> b - t" "b - t < 2 ^ 31"
      using o dims im(3,4) by simp_all
    obtain kind l' t' r' b' where adj: "adjust_ratio (l, t, r, b) = (kind, l', t', r', b')"
      by (metis prod_cases5)
    have o': "l' \<le> r'" "t' \<le> b'" using adjust_ratio_in_order[OF o(2,5) adj] by simp_all
    have k: "kind = NumpyInt64 \<Longrightarrow> (l', t', r', b') = (l, t, r, b)"
      using adjust_ratio_cases[OF adj] by auto
    obtain a1 c1 e1 f1 where a1: "add_margin wk m1 (kind, l', t', r', b') = (a1, c1, e1, f1)"
      by (metis prod_cases4)
    obtain a2 c2 e2 f2 where a2: "add_margin wk m2 (kind, l', t', r', b') = (a2, c2, e2, f2)"
      by (metis prod_cases4)
    obtain x1 y1 u1 v1 where s1: "scale_back ratio (a1, c1, e1, f1) = (x1, y1, u1, v1)"
      by (metis prod_cases4)
    obtain x2 y2 u2 v2 where s2: "scale_back ratio (a2, c2, e2, f2) = (x2, y2, u2, v2)"
      by (metis prod_cases4)
    have det: "edge_region resize find_edges img = Inr (Some (l, t, r, b))"
      using reg Some bx by simp
    have c1: "clamp_box img (x1, y1, u1, v1) = (l1, t1, r1, b1)"
      using assms(2) unfolding find_card_by_edges_detected[OF det] d fst_conv snd_conv adj a1 s1
      by simp
    have c2: "clamp_box img (x2, y2, u2, v2) = (l2, t2, r2, b2)"
      using assms(3) unfolding find_card_by_edges_detected[OF det] d fst_conv snd_conv adj a2 s2
      by simp
    have am: "a2 \<le> a1 \<and> c2 \<le> c1 \<and> e1 \<le> e2 \<and> f1 \<le> f2"
      using k product_within[OF s(1,2) mb(1)] product_within[OF s(1,2) mb(2)]
        product_within[OF s(3,4) mb(1)] product_within[OF s(3,4) mb(2)]
      by (intro add_margin_mono[OF assms(1) o' a1 a2]) simp_all
    show ?thesis by (rule clamp_box_mono[OF scale_back_mono[OF rp am s1 s2] c1 c2])
  qed
qed

subsection \<open>An edge image with one strong pixel, and the margin of the card photo\<close>

lemma speck_edges_small: "downscale_contour blank_resize speck_edges = (speck_edges, 1)"
  by (rule downscale_contour_small) (simp_all add: speck_edges_def)

lemma speck_edges_sorted: "sort (concat (pixels speck_edges)) = replicate 20 0 @ [7]"
  by code_simp

lemma speck_edges_threshold: "np_percentile (concat (pixels speck_edges)) 90 = Inr 0"
proof -
  have l: "length (concat (pixels speck_edges)) = 21"
    using arg_cong[OF speck_edges_sorted, of length] by simp
  have "np_percentile (concat (pixels speck_edges)) 90 = Inr (real 0)"
    by (rule np_percentile_flat[OF near_q90, where k = 18])
      (simp_all add: l speck_edges_sorted nth_append)
  then show ?thesis by simp
qed


lemma speck_edges_mask:
  "strong_edges_contour (pixels speck_edges) = Inr [replicate 20 False @ [True]]"
  by (simp add: strong_edges_contour_def speck_edges_threshold) (simp add: speck_edges_def)

lemma speck_edges_region:
  "contour_region blank_resize (\<lambda>im. im) speck_edges = Inr (Some (20, 0, 20, 0))"
proof -
  have r: "fst (any_indices speck_edges [replicate 20 False @ [True]]) = [0]"
    unfolding any_indices_rows by code_simp
  have c: "snd (any_indices speck_edges [replicate 20 False @ [True]]) = [20]"
    unfolding any_indices_cols by code_simp
  show ?thesis
    unfolding contour_region_def speck_edges_small prod.case speck_edges_mask sum.case
      first_last_split r c
    by simp
qed

lemma crop_card_smart_detected:
  assumes "contour_region resize find_edges img = Inr (Some d)"
  shows "crop_card_smart resize find_edges img =
           Inr (scale_back (snd (downscale_contour resize img))
                  (conservative_crop (fst (downscale_contour resize img))
                     (smart_padding (fst (downscale_contour resize img)) d)))"
  using assms unfolding crop_card_smart_def find_card_contour_def contour_region_def
  by (simp split: prod.splits sum.splits option.splits)

lemma crop_card_smart_error:
  assumes "contour_region resize find_edges img = Inl e"
  shows "crop_card_smart resize find_edges img = Inl e"
  using assms unfolding crop_card_smart_def find_card_contour_def contour_region_def
  by (simp split: prod.splits sum.splits option.splits)

lemma speck_edges_box: "crop_card_smart blank_resize (\<lambda>im. im) speck_edges = Inr (20, 0, 20, 0)"
proof -
  have p: "smart_padding speck_edges (20, 0, 20, 0) = (20, 0, 20, 0)"
    by (simp add: smart_padding_def speck_edges_def py_int_def Let_def)
  have w: "0 \<le> fl (21 * fl (6/10))" by (intro fl_nonneg mult_nonneg_nonneg) simp_all
  have r: "recenter_capped speck_edges (20, 0, 20, 0) = (20, 0, 20, 0)"
    using w fl_of_int[of 20] by (simp add: recenter_capped_def speck_edges_def min_def Let_def py_int_def)
  have a: "aspect (20, 0, 20, 0) = 0" by (simp add: aspect_def)
  have c: "conservative_crop speck_edges (20, 0, 20, 0) = (20, 0, 20, 0)"
    unfolding conservative_crop_def Let_def a r
    using fl_c12_pos by (simp add: clamp_box_def speck_edges_def)
  have s: "scale_back 1 (20, 0, 20, 0) = (20, 0, 20, 0)" by (rule scale_back_one) simp_all
  show ?thesis
    unfolding crop_card_smart_detected[OF speck_edges_region] speck_edges_small fst_conv
      snd_conv p c s ..
qed

lemma card_photo_margin_box:
  "margin_box blank_resize card_photo mp = Some (scale_back 1 (add_margin card_photo mp (NumpyInt64, 3, 4, 8, 13)))"
  by (simp add: margin_box_def card_photo_region card_photo_small)

lemma card_photo_margin_box_3: "margin_box blank_resize card_photo 3 = Some (3, 4, 8, 13)"
proof -
  have a: "add_margin card_photo 3 (NumpyInt64, 3, 4, 8, 13) = (3, 4, 8, 13)"
    by (subst add_margin_exact) (simp_all add: trunc_percent_def card_photo_def)
  have s: "scale_back 1 (3, 4, 8, 13) = (3, 4, 8, 13)" by (rule scale_back_one) simp_all
  show ?thesis unfolding card_photo_margin_box a s ..
qed


lemma card_photo_margin_box_25: "margin_box blank_resize card_photo 25 = Some (2, 2, 9, 15)"
proof -
  have a: "add_margin card_photo 25 (NumpyInt64, 3, 4, 8, 13) = (2, 2, 9, 15)"
    by (subst add_margin_exact) (simp_all add: trunc_percent_def card_photo_def)
  have s: "scale_back 1 (2, 2, 9, 15) = (2, 2, 9, 15)" by (rule scale_back_one) simp_all
  show ?thesis unfolding card_photo_margin_box a s ..
qed

lemma find_dark_rectangle_margin_box:
  "find_dark_rectangle resize gray mp =
     (case margin_box resize gray mp of
        None \<Rightarrow> center_crop (15/100) gray
      | Some bx \<Rightarrow> verify_aspect gray bx)"
proof (cases "dark_region resize gray")
  case None
  then show ?thesis by (simp add: find_dark_rectangle_fallback margin_box_def)
next
  case (Some d)
  then show ?thesis by (simp add: find_dark_rectangle_detected margin_box_def)
qed

subsection \<open>Recentring a box of even width\<close>


















subsection \<open>The percentile lies between two neighbours in sorted order\<close>









subsection \<open>The box of the rows and columns with a mask pixel\<close>









lemma wf_strong_edges_contour:
  assumes "strong_edges_contour arr = Inr msk" "length arr = height work"
    "list_all (\<lambda>row. length row = width work) arr"
  shows "wf_mask work msk"
  using assms
  by (auto simp: strong_edges_contour_def wf_mask_def list_all_length split: sum.splits)






section \<open>Claims\<close>

text \<open>
  C1 (as amended). For every image that PIL resizes to its working size (no side of the
  working size is zero) and every margin percentage from 0 to below \<open>2^32\<close>, the box
  returned by the brightness strategy (\<open>find_dark_rectangle\<close>) and every box returned by
  the edge strategy (\<open>find_card_by_edges\<close>), on the detection path as on the fallback path,
  satisfies \<open>0 \<le> left \<le> right \<le> width\<close> and \<open>0 \<le> top \<le> bottom \<le> height\<close> in original
  coordinates. Image sizes are below \<open>2^31\<close>, as PIL's are; below \<open>2^32\<close> the product of a
  detected size and the margin stays within the int64 range.
\<close>

theorem boxes_within_image:
  assumes "resize_ok resize" "filter_ok find_edges" "wf_image img"
    "width img < 2 ^ 31" "height img < 2 ^ 31" "0 \<le> margin_percent"
    "margin_percent < 2 ^ 32" "resizable 800 img" "resizable 1200 img"
  shows "weak_box img (find_dark_rectangle resize img margin_percent) \<and>
         (\<forall>bx. find_card_by_edges resize find_edges img margin_percent = Inr bx \<longrightarrow>
               weak_box img bx)"
  using find_dark_rectangle_weak[OF assms(1,3,4,5,6,7,8)]
    find_card_by_edges_weak[OF assms(1-6) _ assms(7,9)] by blast

theorem boxes_within_image_witness:
  "resize_ok blank_resize \<and> filter_ok (\<lambda>im. im) \<and> wf_image card_photo \<and>
   width card_photo < 2 ^ 31 \<and> height card_photo < 2 ^ 31 \<and> (0::int) \<le> 3 \<and>
   (3::int) < 2 ^ 32 \<and> resizable 800 card_photo \<and> resizable 1200 card_photo \<and>
   weak_box card_photo (find_dark_rectangle blank_resize card_photo 3)"
proof -
  have r: "resizable 800 card_photo" "resizable 1200 card_photo"
    by (rule resizable_small; simp add: card_photo_def)+
  show ?thesis
    using boxes_within_image[OF resize_ok_blank filter_ok_id wf_card_photo card_photo_bounds _ _ r,
        of 3]
      resize_ok_blank filter_ok_id wf_card_photo card_photo_bounds r
    by simp
qed

text \<open>
  C1 as stated fails in three ways. On a uniform image of one pixel the fallback returns
  \<open>(0, 0, 0, 0)\<close>; on \<open>dot_photo\<close> one row and one column qualify and the box is
  \<open>(1, 1, 1, 1)\<close>: in both \<open>left = right\<close> and \<open>top = bottom\<close>. With a margin of -100 per
  cent the box of \<open>card_photo\<close> is \<open>(7, 11, 2, 4)\<close>, with \<open>left > right\<close>.
\<close>

theorem boxes_strict_counterexample:
  "find_dark_rectangle blank_resize (uniform_image 1 1 128) 3 = (0, 0, 0, 0) \<and>
   \<not> valid_box (uniform_image 1 1 128)
         (find_dark_rectangle blank_resize (uniform_image 1 1 128) 3) \<and>
   find_dark_rectangle blank_resize dot_photo 3 = (1, 1, 1, 1) \<and>
   \<not> valid_box dot_photo (find_dark_rectangle blank_resize dot_photo 3) \<and>
   find_dark_rectangle blank_resize card_photo (- 100) = (7, 11, 2, 4) \<and>
   \<not> weak_box card_photo (find_dark_rectangle blank_resize card_photo (- 100))"
  unfolding one_pixel_box dot_photo_box card_photo_margin_minus_100
  by (simp add: valid_box_def weak_box_def)

subsection \<open>Uniform images\<close>

text \<open>
  C2. On a working image of one intensity the brightness strategy finds no qualifying row
  and returns its centre crop. The edge strategy of \<open>smart_crop_v2.py\<close> returns its centre
  crop when the edge image has one positive strength; when the edge image is zero
  everywhere, as for a black photo, the percentile is taken of an empty selection and the
  detection ends with an error instead of the fallback.
\<close>

theorem uniform_image_detection:
  assumes "uniform_pixels (fst (downscale 800 resize gray)) c"
    and "uniform_pixels (find_edges (fst (downscale 1200 resize img))) e"
  shows "find_dark_rectangle resize gray mp = center_crop (15/100) gray \<and>
         (0 < e \<and> e \<le> 255 \<and> concat (pixels (find_edges (fst (downscale 1200 resize img)))) \<noteq> []
            \<longrightarrow> find_card_by_edges resize find_edges img mp = Inr (fallback_center_crop img)) \<and>
         (e = 0 \<longrightarrow> find_card_by_edges resize find_edges img mp = Inl EmptyArrayError)"
proof (intro conjI impI)
  show "find_dark_rectangle resize gray mp = center_crop (15/100) gray"
    using assms(1) unfolding uniform_pixels_def
    by (intro find_dark_rectangle_fallback dark_region_uniform)
next
  assume "0 < e \<and> e \<le> 255 \<and> concat (pixels (find_edges (fst (downscale 1200 resize img)))) \<noteq> []"
  then show "find_card_by_edges resize find_edges img mp = Inr (fallback_center_crop img)"
    using assms(2) unfolding uniform_pixels_def
    by (intro find_card_by_edges_fallback edge_region_uniform[where c = e]) simp_all
next
  assume e: "e = 0"
  obtain wk ratio where d: "downscale 1200 resize img = (wk, ratio)" by fastforce
  have "strong_edges_v2 (pixels (find_edges wk)) = Inl EmptyArrayError"
    using assms(2) d e unfolding uniform_pixels_def by (intro strong_edges_v2_zero) simp
  then have "edge_region resize find_edges img = Inl EmptyArrayError"
    by (simp add: edge_region_def d)
  then show "find_card_by_edges resize find_edges img mp = Inl EmptyArrayError"
    by (rule find_card_by_edges_error)
qed

theorem uniform_image_detection_witness:
  "find_dark_rectangle blank_resize (uniform_image 500 500 0) 3 = (75, 75, 425, 425) \<and>
   find_card_by_edges blank_resize (\<lambda>im. im) (uniform_image 500 500 0) 3 = Inl EmptyArrayError"
proof -
  have s: "downscale 800 blank_resize (uniform_image 500 500 0) = (uniform_image 500 500 0, 1)"
    "downscale 1200 blank_resize (uniform_image 500 500 0) = (uniform_image 500 500 0, 1)"
    by (simp_all add: downscale_small)
  have c: "center_crop (15/100) (uniform_image 500 500 0) = (75, 75, 425, 425)"
    by (subst center_crop_15) simp_all
  show ?thesis
    using uniform_image_detection[of blank_resize "uniform_image 500 500 0" 0 "\<lambda>im. im"
        "uniform_image 500 500 0" 0 3]
    unfolding s c by (simp add: uniform_pixels_uniform_image)
qed

subsection \<open>The order of the stages\<close>

text \<open>
  C3 (as amended). Only \<open>smart_crop_v2.py\<close> follows the order of the specification, the
  boundary estimate, then the aspect-ratio corrector, then the margin, then the scaling to
  the original resolution (and the clamp). \<open>auto_crop_card.py\<close> applies the margin, then
  scales, and corrects the aspect ratio last, in original coordinates.
  \<open>smart_crop_card.py\<close> pads first, then corrects the aspect ratio, and its caller
  scales.
\<close>

theorem pipeline_order:
  "(edge_region resize find_edges img = Inr estimate \<longrightarrow>
      find_card_by_edges resize find_edges img mp =
        Inr (spec_pipeline adjust_ratio
               (add_margin (fst (downscale 1200 resize img)) mp)
               (\<lambda>bx. clamp_box img (scale_back (snd (downscale 1200 resize img)) bx))
               (fallback_center_crop img) estimate)) \<and>
   find_dark_rectangle resize gray mp =
     (case dark_region resize gray of
        None \<Rightarrow> center_crop (15/100) gray
      | Some bx \<Rightarrow>
          verify_aspect gray
            (scale_back (snd (downscale 800 resize gray))
               (add_margin (fst (downscale 800 resize gray)) mp (NumpyInt64, bx)))) \<and>
   (contour_region resize find_edges photo = Inr contour \<longrightarrow>
      crop_card_smart resize find_edges photo =
        Inr (case contour of
               None \<Rightarrow>
                 scale_back (snd (downscale_contour resize photo))
                   (contour_fallback (fst (downscale_contour resize photo)))
             | Some bx \<Rightarrow>
                 scale_back (snd (downscale_contour resize photo))
                   (conservative_crop (fst (downscale_contour resize photo))
                      (smart_padding (fst (downscale_contour resize photo)) bx))))"
proof (intro conjI impI)
  assume "edge_region resize find_edges img = Inr estimate"
  then show "find_card_by_edges resize find_edges img mp =
        Inr (spec_pipeline adjust_ratio
               (add_margin (fst (downscale 1200 resize img)) mp)
               (\<lambda>bx. clamp_box img (scale_back (snd (downscale 1200 resize img)) bx))
               (fallback_center_crop img) estimate)"
    by (cases estimate)
      (simp_all add: find_card_by_edges_fallback find_card_by_edges_detected spec_pipeline_def)
next
  show "find_dark_rectangle resize gray mp =
     (case dark_region resize gray of
        None \<Rightarrow> center_crop (15/100) gray
      | Some bx \<Rightarrow>
          verify_aspect gray
            (scale_back (snd (downscale 800 resize gray))
               (add_margin (fst (downscale 800 resize gray)) mp (NumpyInt64, bx))))"
    by (cases "dark_region resize gray")
      (simp_all add: find_dark_rectangle_fallback find_dark_rectangle_detected)
next
  assume "contour_region resize find_edges photo = Inr contour"
  then show "crop_card_smart resize find_edges photo =
        Inr (case contour of
               None \<Rightarrow>
                 scale_back (snd (downscale_contour resize photo))
                   (contour_fallback (fst (downscale_contour resize photo)))
             | Some bx \<Rightarrow>
                 scale_back (snd (downscale_contour resize photo))
                   (conservative_crop (fst (downscale_contour resize photo))
                      (smart_padding (fst (downscale_contour resize photo)) bx)))"
    by (cases contour) (simp_all add: crop_card_smart_fallback crop_card_smart_detected)
qed

theorem pipeline_order_witness:
  "edge_region blank_resize (\<lambda>im. im) edge_photo = Inr (Some (3, 3, 7, 7)) \<and>
   find_card_by_edges blank_resize (\<lambda>im. im) edge_photo 25 =
     Inr (spec_pipeline adjust_ratio (add_margin edge_photo 25)
            (\<lambda>bx. clamp_box edge_photo (scale_back 1 bx))
            (fallback_center_crop edge_photo) (Some (3, 3, 7, 7))) \<and>
   contour_region blank_resize (\<lambda>im. im) speck_edges = Inr (Some (20, 0, 20, 0)) \<and>
   crop_card_smart blank_resize (\<lambda>im. im) speck_edges =
     Inr (scale_back 1 (conservative_crop speck_edges (smart_padding speck_edges (20, 0, 20, 0))))"
  using pipeline_order[of blank_resize "\<lambda>im. im" edge_photo "Some (3, 3, 7, 7)" 25 card_photo
      speck_edges "Some (20, 0, 20, 0)"]
    edge_photo_region speck_edges_region
  by (simp add: edge_photo_small speck_edges_small)

text \<open>
  C3 as stated fails for \<open>find_dark_rectangle\<close>: on \<open>card_photo\<close> with a margin of 12 per
  cent it returns \<open>(2, 4, 7, 11)\<close>, where the order of the specification, the check of the
  aspect ratio before the margin, gives \<open>(3, 3, 8, 14)\<close>.
\<close>

theorem pipeline_order_counterexample:
  "find_dark_rectangle blank_resize card_photo 12 = (2, 4, 7, 11) \<and>
   spec_pipeline (verify_aspect card_photo) (\<lambda>bx. add_margin card_photo 12 (NumpyInt64, bx))
     (scale_back 1) (center_crop (15/100) card_photo) (dark_region blank_resize card_photo)
     = (3, 3, 8, 14)"
proof -
  have v: "verify_aspect card_photo (3, 4, 8, 13) = (3, 4, 8, 13)"
    by (subst verify_aspect_exact) simp_all
  have a: "add_margin card_photo 12 (NumpyInt64, 3, 4, 8, 13) = (3, 3, 8, 14)"
    by (subst add_margin_exact) (simp_all add: trunc_percent_def card_photo_def)
  have s: "scale_back 1 (3, 3, 8, 14) = (3, 3, 8, 14)" by (rule scale_back_one) simp_all
  show ?thesis
    unfolding spec_pipeline_def card_photo_region option.case v a s card_photo_margin_12 by simp
qed

subsection \<open>The recentred box\<close>




subsection \<open>The threshold of the edge masks\<close>




subsection \<open>Which rows and columns qualify\<close>




text \<open>
  C7 (as amended). Whenever no row or no column qualifies, each script returns a centre
  crop that depends on the image size alone. In auto\_crop\_card.py the margins are 15\% and
  in smart\_crop\_v2.py 18\% of the original width and height, on every side, and both boxes
  lie in the band of 15\% to 20\%. In crop\_card.py the margins are 15\% of the original
  width and 5\% of the original height. In smart\_crop\_card.py they are 20\% of the width
  and 15\% of the height of the working image, and the caller divides the four
  coordinates by the scale factor.
\<close>

theorem fallback_boxes:
  assumes "width img < 2 ^ 31" "height img < 2 ^ 31"
  shows "(dark_region resize img = None \<longrightarrow>
            find_dark_rectangle resize img margin_percent =
              (int (width img * 3 div 20), int (height img * 3 div 20),
               int (width img * 17 div 20), int (height img * 17 div 20)) \<and>
            fallback_in_band img (find_dark_rectangle resize img margin_percent)) \<and>
         (edge_region resize find_edges img = Inr None \<longrightarrow>
            find_card_by_edges resize find_edges img margin_percent =
              Inr (int (width img * 9 div 50), int (height img * 9 div 50),
                   int (width img * 41 div 50), int (height img * 41 div 50)) \<and>
            fallback_in_band img (fallback_center_crop img)) \<and>
         (content_region img = None \<longrightarrow>
            crop_card img padding =
              (int (width img * 3 div 20), int (height img * 1 div 20),
               int (width img * 17 div 20), int (height img * 19 div 20))) \<and>
         (contour_region resize find_edges img = Inr None \<longrightarrow>
            width (fst (downscale_contour resize img)) < 2 ^ 31 \<longrightarrow>
            height (fst (downscale_contour resize img)) < 2 ^ 31 \<longrightarrow>
            crop_card_smart resize find_edges img =
              Inr (scale_back (snd (downscale_contour resize img))
                     (int (width (fst (downscale_contour resize img)) * 1 div 5),
                      int (height (fst (downscale_contour resize img)) * 3 div 20),
                      int (width (fst (downscale_contour resize img))) -
                        int (width (fst (downscale_contour resize img)) * 1 div 5),
                      int (height (fst (downscale_contour resize img))) -
                        int (height (fst (downscale_contour resize img)) * 3 div 20))))"
proof (intro conjI impI)
  assume a: "dark_region resize img = None"
  show "find_dark_rectangle resize img margin_percent =
          (int (width img * 3 div 20), int (height img * 3 div 20),
           int (width img * 17 div 20), int (height img * 17 div 20))"
    by (simp only: find_dark_rectangle_fallback[OF a] center_crop_15[OF assms])
  show "fallback_in_band img (find_dark_rectangle resize img margin_percent)"
    by (simp only: find_dark_rectangle_fallback[OF a] center_crop_15_in_band[OF assms])
next
  assume a: "edge_region resize find_edges img = Inr None"
  show "find_card_by_edges resize find_edges img margin_percent =
          Inr (int (width img * 9 div 50), int (height img * 9 div 50),
               int (width img * 41 div 50), int (height img * 41 div 50))"
    by (simp only: find_card_by_edges_fallback[OF a] fallback_center_crop_def
        center_crop_18[OF assms])
  show "fallback_in_band img (fallback_center_crop img)"
    by (simp only: fallback_center_crop_def center_crop_18_in_band[OF assms])
next
  assume a: "content_region img = None"
  show "crop_card img padding =
          (int (width img * 3 div 20), int (height img * 1 div 20),
           int (width img * 17 div 20), int (height img * 19 div 20))"
    by (rule crop_card_fallback[OF a assms])
next
  assume a: "contour_region resize find_edges img = Inr None"
    and b: "width (fst (downscale_contour resize img)) < 2 ^ 31"
      "height (fst (downscale_contour resize img)) < 2 ^ 31"
  show "crop_card_smart resize find_edges img =
          Inr (scale_back (snd (downscale_contour resize img))
                 (int (width (fst (downscale_contour resize img)) * 1 div 5),
                  int (height (fst (downscale_contour resize img)) * 3 div 20),
                  int (width (fst (downscale_contour resize img))) -
                    int (width (fst (downscale_contour resize img)) * 1 div 5),
                  int (height (fst (downscale_contour resize img))) -
                    int (height (fst (downscale_contour resize img)) * 3 div 20)))"
    by (simp only: crop_card_smart_fallback[OF a] contour_fallback_exact[OF b])
qed

text \<open>
  The witness is a uniform image of 20 by 20 pixels at level 128, with an edge image
  equal to the image: every hypothesis holds, and the four boxes are computed.
\<close>

theorem fallback_boxes_witness:
  "dark_region blank_resize (uniform_image 20 20 128) = None \<and>
   edge_region blank_resize (\<lambda>im. im) (uniform_image 20 20 128) = Inr None \<and>
   content_region (uniform_image 20 20 128) = None \<and>
   contour_region blank_resize (\<lambda>im. im) (uniform_image 20 20 128) = Inr None \<and>
   find_dark_rectangle blank_resize (uniform_image 20 20 128) 3 = (3, 3, 17, 17) \<and>
   find_card_by_edges blank_resize (\<lambda>im. im) (uniform_image 20 20 128) 3 = Inr (3, 3, 16, 16) \<and>
   crop_card (uniform_image 20 20 128) 20 = (3, 1, 17, 19) \<and>
   crop_card_smart blank_resize (\<lambda>im. im) (uniform_image 20 20 128) = Inr (4, 3, 16, 17)"
proof -
  let ?u = "uniform_image 20 20 128"
  have d: "downscale 800 blank_resize ?u = (?u, 1)" "downscale 1200 blank_resize ?u = (?u, 1)"
    by (simp_all add: downscale_small)
  have dc: "downscale_contour blank_resize ?u = (?u, 1)" by (simp add: downscale_contour_small)
  have 1: "dark_region blank_resize ?u = None"
    by (rule dark_region_uniform[where c=128]) (simp add: d)
  have 2: "edge_region blank_resize (\<lambda>im. im) ?u = Inr None"
    by (rule edge_region_uniform[where c=128]) (simp_all add: d concat_uniform)
  have 3: "content_region ?u = None"
    by (rule content_region_uniform[where c=128]) simp
  have 4: "contour_region blank_resize (\<lambda>im. im) ?u = Inr None"
    by (rule contour_region_uniform[where c=128]) (simp_all add: dc concat_uniform)
  have s: "scale_back 1 (4, 3, 16, 17) = (4, 3, 16, 17)" by (rule scale_back_one) simp_all
  show ?thesis
    using fallback_boxes[of ?u blank_resize 3 "\<lambda>im. im" 20] 1 2 3 4
    by (simp add: dc s)
qed

text \<open>
  C7 as stated fails in crop\_card.py: on a uniform image of 20 by 20 pixels the fallback
  keeps rows 1 to 19, a margin of one row or 5\% at the top and at the bottom.
\<close>

theorem fallback_band_counterexample:
  "crop_card (uniform_image 20 20 128) 20 = (3, 1, 17, 19) \<and>
   \<not> fallback_in_band (uniform_image 20 20 128) (crop_card (uniform_image 20 20 128) 20)"
proof -
  have "content_region (uniform_image 20 20 128) = None"
    by (rule content_region_uniform[where c=128]) simp
  then have "crop_card (uniform_image 20 20 128) 20 = (3, 1, 17, 19)"
    by (simp add: crop_card_fallback)
  then show ?thesis by (simp add: fallback_in_band_def margin_in_band_def)
qed

text \<open>
  C8 (as amended). For every image at least two pixels wide and two pixels high, both
  fallback selectors (the centre crop with margin 0.15 of auto\_crop\_card.py and
  \<open>fallback_center_crop\<close> of smart\_crop\_v2.py) return a box with \<open>right - left > 0\<close>
  and \<open>bottom - top > 0\<close>.
\<close>

theorem fallback_nondegenerate:
  assumes "2 \<le> width img" "2 \<le> height img"
  shows "nondegenerate (center_crop (15/100) img) \<and> nondegenerate (fallback_center_crop img)"
proof -
  have "nondegenerate (center_crop (15/100) img)"
    by (rule center_crop_nondegenerate[OF assms]) (simp_all only: fl_c15_raw, simp_all add: fl_c85s_num)
  moreover have "nondegenerate (center_crop (18/100) img)"
    by (rule center_crop_nondegenerate[OF assms]) (simp_all only: fl_c18_raw, simp_all add: fl_c82s_num)
  ultimately show ?thesis by (simp only: fallback_center_crop_def simp_thms)
qed

theorem fallback_nondegenerate_witness:
  "2 \<le> width (uniform_image 2 2 128) \<and> 2 \<le> height (uniform_image 2 2 128) \<and>
   nondegenerate (center_crop (15/100) (uniform_image 2 2 128)) \<and>
   nondegenerate (fallback_center_crop (uniform_image 2 2 128))"
  using fallback_nondegenerate[of "uniform_image 2 2 128"] by (simp add: uniform_image_def)

text \<open>
  C8 as stated fails on an image one pixel wide and high: both selectors return
  \<open>(0, 0, 0, 0)\<close>, because \<open>int(1 * 0.18) = int(1 * 0.82) = 0\<close>.
\<close>

theorem fallback_degenerate_counterexample:
  "\<not> nondegenerate (fallback_center_crop (uniform_image 1 1 128)) \<and>
   \<not> nondegenerate (center_crop (15/100) (uniform_image 1 1 128))"
proof -
  have b: "width (uniform_image 1 1 128) < 2 ^ 31" "height (uniform_image 1 1 128) < 2 ^ 31"
    by (simp_all add: uniform_image_def)
  show ?thesis
    unfolding fallback_center_crop_def center_crop_18[OF b] center_crop_15[OF b]
    by (simp add: uniform_image_def nondegenerate_def)
qed

subsection \<open>The margin and the size of the box\<close>

text \<open>
  C9 (as amended). For a fixed image that PIL resizes to its working size and margin
  percentages between \<open>-2^32\<close> and \<open>2^32\<close>, a larger margin percentage never gives a
  narrower or lower box in \<open>smart_crop_v2.py\<close> (\<open>find_card_by_edges\<close>), clamping included:
  the margin is its last step before scaling and clamping. In \<open>auto_crop_card.py\<close> the same
  holds of the box after margin, clamping and scaling (\<open>margin_box\<close>); the returned box is
  that box passed through the check of the aspect ratio, which may replace it by a smaller
  one. Within these margins no product of a detected size and the margin leaves the int64
  range.
\<close>

theorem margin_monotone:
  assumes "m1 \<le> m2" "\<bar>m1\<bar> < 2 ^ 32" "\<bar>m2\<bar> < 2 ^ 32"
    and "resize_ok resize" "filter_ok find_edges"
    and "wf_image img" "width img < 2 ^ 31" "height img < 2 ^ 31" "resizable 1200 img"
    and "wf_image gray" "width gray < 2 ^ 31" "height gray < 2 ^ 31" "resizable 800 gray"
  shows "(find_card_by_edges resize find_edges img m1 = Inr bx1 \<and>
          find_card_by_edges resize find_edges img m2 = Inr bx2 \<longrightarrow>
            box_width bx1 \<le> box_width bx2 \<and> box_height bx1 \<le> box_height bx2) \<and>
         (margin_box resize gray m1 = Some by1 \<and> margin_box resize gray m2 = Some by2 \<longrightarrow>
            box_width by1 \<le> box_width by2 \<and> box_height by1 \<le> box_height by2) \<and>
         find_dark_rectangle resize gray m1 =
           (case margin_box resize gray m1 of
              None \<Rightarrow> center_crop (15/100) gray
            | Some bx \<Rightarrow> verify_aspect gray bx)"
proof (intro conjI impI)
  assume a: "find_card_by_edges resize find_edges img m1 = Inr bx1 \<and>
             find_card_by_edges resize find_edges img m2 = Inr bx2"
  obtain l1 t1 r1 b1 where b1: "bx1 = (l1, t1, r1, b1)" by (metis prod_cases4)
  obtain l2 t2 r2 b2 where b2: "bx2 = (l2, t2, r2, b2)" by (metis prod_cases4)
  have "l2 \<le> l1 \<and> t2 \<le> t1 \<and> r1 \<le> r2 \<and> b1 \<le> b2"
    using find_card_by_edges_mono[OF assms(1) _ _ assms(4,6,7,8,9,5,2,3),
        of l1 t1 r1 b1 l2 t2 r2 b2] a
    by (simp add: b1 b2)
  then show "box_width bx1 \<le> box_width bx2" "box_height bx1 \<le> box_height bx2"
    by (simp_all add: b1 b2 box_width_def box_height_def)
next
  assume a: "margin_box resize gray m1 = Some by1 \<and> margin_box resize gray m2 = Some by2"
  obtain l1 t1 r1 b1 where b1: "by1 = (l1, t1, r1, b1)" by (metis prod_cases4)
  obtain l2 t2 r2 b2 where b2: "by2 = (l2, t2, r2, b2)" by (metis prod_cases4)
  have "l2 \<le> l1 \<and> t2 \<le> t1 \<and> r1 \<le> r2 \<and> b1 \<le> b2"
    using margin_box_mono[OF assms(1) _ _ assms(4,10,11,12,13,2,3),
        of l1 t1 r1 b1 l2 t2 r2 b2] a
    by (simp add: b1 b2)
  then show "box_width by1 \<le> box_width by2" "box_height by1 \<le> box_height by2"
    by (simp_all add: b1 b2 box_width_def box_height_def)
next
  show "find_dark_rectangle resize gray m1 =
          (case margin_box resize gray m1 of
             None \<Rightarrow> center_crop (15/100) gray
           | Some bx \<Rightarrow> verify_aspect gray bx)"
    by (rule find_dark_rectangle_margin_box)
qed

theorem margin_monotone_witness:
  "(3::int) \<le> 25 \<and> \<bar>3::int\<bar> < 2 ^ 32 \<and> \<bar>25::int\<bar> < 2 ^ 32 \<and>
   resize_ok blank_resize \<and> filter_ok (\<lambda>im. im) \<and>
   wf_image edge_photo \<and> width edge_photo < 2 ^ 31 \<and> height edge_photo < 2 ^ 31 \<and>
   resizable 1200 edge_photo \<and>
   wf_image card_photo \<and> width card_photo < 2 ^ 31 \<and> height card_photo < 2 ^ 31 \<and>
   resizable 800 card_photo \<and>
   find_card_by_edges blank_resize (\<lambda>im. im) edge_photo 3 = Inr (3, 2, 7, 7) \<and>
   find_card_by_edges blank_resize (\<lambda>im. im) edge_photo 25 = Inr (2, 1, 8, 8) \<and>
   box_width (3, 2, 7, 7) \<le> box_width (2, 1, 8, 8) \<and>
   box_height (3, 2, 7, 7) \<le> box_height (2, 1, 8, 8) \<and>
   margin_box blank_resize card_photo 3 = Some (3, 4, 8, 13) \<and>
   margin_box blank_resize card_photo 25 = Some (2, 2, 9, 15) \<and>
   box_width (3, 4, 8, 13) \<le> box_width (2, 2, 9, 15) \<and>
   box_height (3, 4, 8, 13) \<le> box_height (2, 2, 9, 15)"
proof -
  have w: "wf_image edge_photo" by (simp add: wf_image_def edge_photo_def list_all_iff)
  have "resizable 1200 edge_photo" by (rule resizable_small; simp add: edge_photo_def)
  note e = w this
  have c: "resizable 800 card_photo" by (rule resizable_small; simp add: card_photo_def)
  have m: "(3::int) \<le> 25" "\<bar>3::int\<bar> < 2 ^ 32" "\<bar>25::int\<bar> < 2 ^ 32" by simp_all
  show ?thesis
    using margin_monotone[OF m resize_ok_blank filter_ok_id e(1) edge_photo_bounds e(2)
        wf_card_photo card_photo_bounds c,
        of "(3, 2, 7, 7)" "(2, 1, 8, 8)" "(3, 4, 8, 13)" "(2, 2, 9, 15)"]
      edge_photo_margin_3 edge_photo_margin_25 card_photo_margin_box_3 card_photo_margin_box_25
      resize_ok_blank filter_ok_id e edge_photo_bounds wf_card_photo card_photo_bounds c
    by simp
qed

text \<open>
  C9 as stated fails for \<open>find_dark_rectangle\<close>: on \<open>card_photo\<close>, of 12 by 18, the margin 0
  gives the box \<open>(3, 4, 8, 13)\<close> of height 9 and the margin 12 gives \<open>(2, 4, 7, 11)\<close> of
  height 7, and no coordinate of either is clamped at the image bounds. The margin of 12
  per cent turns the ratio 9/5 into 11/5, outside the band, and the box is recentred.
\<close>

theorem margin_shrinks_counterexample:
  "(0::int) \<le> 12 \<and>
   find_dark_rectangle blank_resize card_photo 0 = (3, 4, 8, 13) \<and>
   find_dark_rectangle blank_resize card_photo 12 = (2, 4, 7, 11) \<and>
   box_height (find_dark_rectangle blank_resize card_photo 12)
     < box_height (find_dark_rectangle blank_resize card_photo 0) \<and>
   width card_photo = 12 \<and> height card_photo = 18"
  by (simp add: card_photo_margin_0 card_photo_margin_12 box_height_def) (simp add: card_photo_def)

subsection \<open>Rows and columns with any mask pixel\<close>



end
